theory Spec2Isabelle
  imports Main
begin

section \<open>Python strings\<close>

text \<open>
  A Python \<open>str\<close> is modelled as a \<open>string\<close> whose characters are the Unicode code
  points below 256 (Latin-1), which cover Spanish orthography: \<open>CHR 0xED\<close> is the
  accented i of the auxiliary forms, \<open>CHR 0xBF\<close> and \<open>CHR 0xA1\<close> are the inverted
  question and exclamation marks.
\<close>

text \<open>The upper-case letters below 256: A..Z, and the accented capitals but the
  multiplication sign (215).\<close>

definition is_upper :: "char \<Rightarrow> bool" where
  "is_upper c = (let n = (of_char c :: nat) in
     (65 \<le> n \<and> n \<le> 90) \<or> (192 \<le> n \<and> n \<le> 214) \<or> (216 \<le> n \<and> n \<le> 222))"

text \<open>Each of these has its lower-case letter 32 code points above it: bit 5, which is
  clear in all of them, is set.\<close>

definition lower_char :: "char \<Rightarrow> char" where
  "lower_char c = (if is_upper c
     then (case c of Char b0 b1 b2 b3 b4 b5 b6 b7 \<Rightarrow> Char b0 b1 b2 b3 b4 True b6 b7)
     else c)"

text \<open>\<^verbatim>\<open>s.lower()\<close>\<close>

definition lower :: "string \<Rightarrow> string" where
  "lower s = map lower_char s"

text \<open>The characters \<^verbatim>\<open>str.isspace\<close> accepts below 256.\<close>

definition is_space_char :: "char \<Rightarrow> bool" where
  "is_space_char c = (let n = (of_char c :: nat) in
     (9 \<le> n \<and> n \<le> 13) \<or> (28 \<le> n \<and> n \<le> 32) \<or> n = 133 \<or> n = 160)"

text \<open>\<^verbatim>\<open>s.strip(chars)\<close>: the characters of the set are removed from both ends.\<close>

definition strip_chars :: "(char \<Rightarrow> bool) \<Rightarrow> string \<Rightarrow> string" where
  "strip_chars p s = rev (dropWhile p (rev (dropWhile p s)))"

text \<open>\<^verbatim>\<open>s.strip()\<close>\<close>

definition strip :: "string \<Rightarrow> string" where
  "strip s = strip_chars is_space_char s"

text \<open>\<^verbatim>\<open>s.endswith(suffix)\<close>\<close>

definition endswith :: "string \<Rightarrow> string \<Rightarrow> bool" where
  "endswith s suffix =
     (length suffix \<le> length s \<and> drop (length s - length suffix) s = suffix)"

text \<open>\<^verbatim>\<open>sep.join(parts)\<close>\<close>

fun join :: "string \<Rightarrow> string list \<Rightarrow> string" where
  "join sep [] = []"
| "join sep [p] = p"
| "join sep (p # q # ps) = p @ sep @ join sep (q # ps)"

text \<open>\<^verbatim>\<open>x in s\<close> for two strings: \<open>x\<close> occurs in \<open>s\<close> as a contiguous run.\<close>

fun is_substring :: "string \<Rightarrow> string \<Rightarrow> bool" where
  "is_substring x [] = (x = [])"
| "is_substring x (c # cs) = (take (length x) (c # cs) = x \<or> is_substring x cs)"

text \<open>
  \<^verbatim>\<open>PUNCT_CHARS = string.punctuation + "\<questiondown>\<exclamdown>"\<close>, as the set of its characters:
  \<^verbatim>\<open>string.punctuation\<close> is the code points 33..47, 58..64, 91..96 and 123..126.
\<close>

definition PUNCT_CHARS :: "char \<Rightarrow> bool" where
  "PUNCT_CHARS c = (let n = (of_char c :: nat) in
     (33 \<le> n \<and> n \<le> 47) \<or> (58 \<le> n \<and> n \<le> 64) \<or> (91 \<le> n \<and> n \<le> 96) \<or>
     (123 \<le> n \<and> n \<le> 126) \<or> n = 191 \<or> n = 161)"

definition strip_punct :: "string \<Rightarrow> string" where
  "strip_punct token_text = strip_chars PUNCT_CHARS token_text"

section \<open>Values and errors\<close>

text \<open>
  What \<^verbatim>\<open>json.load\<close> can put under a key: \<open>PNone\<close> is \<^verbatim>\<open>null\<close>, \<open>PNum\<close> a number,
  \<open>PDict\<close> an object with its keys in insertion order.
\<close>

datatype pyval =
    PNone
  | PBool bool
  | PNum int
  | PStr string
  | PList "pyval list"
  | PDict "(string \<times> pyval) list"

datatype error = TypeError | AttributeError | KeyError | ZeroDivisionError

text \<open>\<^verbatim>\<open>d.get(k, default)\<close> on a dict\<close>

definition dict_get :: "(string \<times> pyval) list \<Rightarrow> string \<Rightarrow> pyval \<Rightarrow> pyval" where
  "dict_get d k dflt = (case map_of d k of Some v \<Rightarrow> v | None \<Rightarrow> dflt)"

text \<open>\<^verbatim>\<open>d[k] = v\<close> on a dict: a key it has keeps its place, a new one goes last.\<close>

fun dict_set :: "(string \<times> pyval) list \<Rightarrow> string \<Rightarrow> pyval \<Rightarrow> (string \<times> pyval) list" where
  "dict_set [] k v = [(k, v)]"
| "dict_set ((k', v') # d) k v =
     (if k' = k then (k, v) # d else (k', v') # dict_set d k v)"

text \<open>
  \<^verbatim>\<open>x in v\<close> for a string \<open>x\<close>: a substring test on a string, membership in a list,
  key membership in a dict, and a TypeError on a value that is not iterable.
\<close>

fun py_in :: "string \<Rightarrow> pyval \<Rightarrow> error + bool" where
  "py_in x (PStr s) = Inr (is_substring x s)"
| "py_in x (PList vs) = Inr (PStr x \<in> set vs)"
| "py_in x (PDict d) = Inr (x \<in> set (map fst d))"
| "py_in x PNone = Inl TypeError"
| "py_in x (PBool b) = Inl TypeError"
| "py_in x (PNum n) = Inl TypeError"

section \<open>Speaker attributes\<close>

text \<open>
  \<^verbatim>\<open>map_speaker_attributes\<close> is the same function in \<^verbatim>\<open>analysis_tenses.py\<close> and in
  \<^verbatim>\<open>database_creation.py\<close>: a fixed table from speaker codes to
  (professionalism, gender, discourse mode, topic), read with
  \<^verbatim>\<open>mapping.get(name, ('', '', '', ''))\<close>.
\<close>

type_synonym attributes = "string \<times> string \<times> string \<times> string"

definition mapping :: "(string \<times> attributes) list" where
  "mapping =
    [(''lib-pm'',  (''pro'', ''m'', ''libre'', ''general'')),
     (''lib-pf'',  (''pro'', ''f'', ''libre'', ''general'')),
     (''lib-om'',  (''otro'', ''m'', ''libre'', ''general'')),
     (''lib-of'',  (''otro'', ''f'', ''libre'', ''general'')),
     (''lec-pm'',  (''pro'', ''m'', ''lectura'', ''general'')),
     (''lec-pf'',  (''pro'', ''f'', ''lectura'', ''general'')),
     (''lec-om'',  (''otro'', ''m'', ''lectura'', ''general'')),
     (''lec-of'',  (''otro'', ''f'', ''lectura'', ''general'')),
     (''pre-pm'',  (''pro'', ''m'', ''pre'', ''general'')),
     (''pre-pf'',  (''pro'', ''f'', ''pre'', ''general'')),
     (''tie-pm'',  (''pro'', ''m'', ''n/a'', ''tiempo'')),
     (''tie-pf'',  (''pro'', ''f'', ''n/a'', ''tiempo'')),
     (''traf-pm'', (''pro'', ''m'', ''n/a'', ''tr'' @ [CHR 0xE1] @ ''nsito'')),
     (''traf-pf'', (''pro'', ''f'', ''n/a'', ''tr'' @ [CHR 0xE1] @ ''nsito''))]"

definition map_speaker_attributes :: "string \<Rightarrow> attributes" where
  "map_speaker_attributes name =
     (case map_of mapping name of Some attrs \<Rightarrow> attrs | None \<Rightarrow> ('''', '''', '''', ''''))"

section \<open>Transcripts and tagger tokens\<close>

text \<open>
  A word of a transcript is a JSON object. Its text, its foreign flag and the four core
  annotation fields are strings when the key is there (\<open>None\<close>: the key is absent); the
  morphology entry is any JSON value, since the post-processing passes test its shape
  themselves. \<open>w_rest\<close> holds the other keys (start and end time and so on), which the
  annotation module never reads.
\<close>

record word =
  w_text :: "string option"
  w_foreign :: "string option"
  w_pos :: "string option"
  w_lemma :: "string option"
  w_dep :: "string option"
  w_head_text :: "string option"
  w_morph :: "pyval option"
  w_rest :: "(string \<times> pyval) list"

text \<open>
  The words of a segment are objects that the code mutates in place, and the sentences
  and the context windows are lists of references to them. The model keeps the words of
  a segment in a store (\<open>word list\<close>) and a reference is the word's position in it.
\<close>

type_synonym ref = nat

record segment =
  words :: "word list"

record transcript =
  segments :: "segment list"

text \<open>
  A token of the tagger's answer: \<open>t_head\<close> is the text of the head token when the token
  has a head (\<^verbatim>\<open>t.head.text if t.head else ""\<close>), \<open>t_morph\<close> is \<^verbatim>\<open>t.morph.to_dict()\<close>.
  The tagger itself (\<^verbatim>\<open>nlp\<close>, a loaded spaCy model) is a parameter of the model.
\<close>

record token =
  t_text :: string
  t_is_punct :: bool
  t_is_space :: bool
  t_pos :: string
  t_lemma :: string
  t_dep :: string
  t_head :: "string option"
  t_morph :: "(string \<times> pyval) list"

type_synonym tagger = "string \<Rightarrow> token list"

text \<open>\<^verbatim>\<open>w.get("text", "")\<close> and \<^verbatim>\<open>w.get("head_text", "")\<close>\<close>

definition get_text :: "word \<Rightarrow> string" where
  "get_text w = (case w_text w of Some t \<Rightarrow> t | None \<Rightarrow> '''')"

definition get_head_text :: "word \<Rightarrow> string" where
  "get_head_text w = (case w_head_text w of Some t \<Rightarrow> t | None \<Rightarrow> '''')"

text \<open>\<^verbatim>\<open>w.get("morph", {})\<close>\<close>

definition get_morph :: "word \<Rightarrow> pyval" where
  "get_morph w = (case w_morph w of Some m \<Rightarrow> m | None \<Rightarrow> PDict [])"

section \<open>Sentence segmenter\<close>

definition sentence_ends :: "string list" where
  "sentence_ends = [''.'', ''?'', ''!'']"

text \<open>The loop of \<^verbatim>\<open>split_into_sentences\<close>, with \<open>current_sentence\<close> and \<open>sentences\<close>
  as accumulators, and its last two statements at the end of the list.\<close>

fun split_loop :: "word list \<Rightarrow> ref list \<Rightarrow> ref list \<Rightarrow> ref list list \<Rightarrow> ref list list" where
  "split_loop st [] current_sentence sentences =
     (if current_sentence \<noteq> [] then sentences @ [current_sentence] else sentences)"
| "split_loop st (w # rest) current_sentence sentences =
     (let current = current_sentence @ [w];
          txt = lower (strip (get_text (st ! w)))
      in if txt \<noteq> [] \<and> list_ex (endswith txt) sentence_ends
         then split_loop st rest [] (sentences @ [current])
         else split_loop st rest current sentences)"

definition split_into_sentences :: "word list \<Rightarrow> ref list \<Rightarrow> ref list list" where
  "split_into_sentences st words_list = split_loop st words_list [] []"

section \<open>Token aligner\<close>

text \<open>The five fields that \<^verbatim>\<open>annotate_fallback\<close> returns as a dict.\<close>

record annotation =
  a_pos :: string
  a_lemma :: string
  a_dep :: string
  a_head_text :: string
  a_morph :: "(string \<times> pyval) list"

definition head_text_of :: "token \<Rightarrow> string" where
  "head_text_of t = (case t_head t of Some h \<Rightarrow> h | None \<Rightarrow> '''')"

definition annotate_fallback :: "tagger \<Rightarrow> string \<Rightarrow> annotation" where
  "annotate_fallback nlp word_text =
     (case nlp word_text of
        t # _ \<Rightarrow> \<lparr>a_pos = t_pos t, a_lemma = t_lemma t, a_dep = t_dep t,
                  a_head_text = head_text_of t, a_morph = t_morph t\<rparr>
      | [] \<Rightarrow> \<lparr>a_pos = '''', a_lemma = word_text, a_dep = '''',
                a_head_text = '''', a_morph = []\<rparr>)"

definition fill_word_annotation :: "word \<Rightarrow> token \<Rightarrow> word" where
  "fill_word_annotation w_obj spacy_token =
     w_obj\<lparr>w_pos := Some (t_pos spacy_token),
           w_lemma := Some (t_lemma spacy_token),
           w_dep := Some (t_dep spacy_token),
           w_head_text := Some (head_text_of spacy_token),
           w_morph := Some (PDict (t_morph spacy_token))\<rparr>"

text \<open>\<^verbatim>\<open>w.update({"pos": .., "lemma": .., "dep": .., "head_text": .., "morph": ..})\<close>\<close>

definition update_annotation :: "word \<Rightarrow> annotation \<Rightarrow> word" where
  "update_annotation w a =
     w\<lparr>w_pos := Some (a_pos a), w_lemma := Some (a_lemma a), w_dep := Some (a_dep a),
       w_head_text := Some (a_head_text a), w_morph := Some (PDict (a_morph a))\<rparr>"

definition punct_or_space :: "token \<Rightarrow> bool" where
  "punct_or_space t = (t_is_punct t \<or> t_is_space t)"

text \<open>\<^verbatim>\<open>while tok<len(doc) and (doc[tok].is_punct or doc[tok].is_space): tok += 1\<close>\<close>

function skip_punct :: "token list \<Rightarrow> nat \<Rightarrow> nat" where
  "skip_punct doc tok =
     (if tok < length doc \<and> punct_or_space (doc ! tok) then skip_punct doc (tok + 1) else tok)"
  by pat_completeness auto
termination
  by (relation "measure (\<lambda>(doc, tok). length doc - tok)") auto

text \<open>The comparison of a token with a word, both stripped of punctuation and
  lower-cased.\<close>

definition matches :: "token \<Rightarrow> string \<Rightarrow> bool" where
  "matches t txt = (strip_punct (lower (t_text t)) = strip_punct (lower txt))"

text \<open>
  The forward search \<^verbatim>\<open>while td < len(doc)\<close>: the result is the final \<open>td\<close> and the token
  found (\<open>None\<close> is \<^verbatim>\<open>found == False\<close>).
\<close>

function forward_search :: "token list \<Rightarrow> string \<Rightarrow> nat \<Rightarrow> nat \<times> token option" where
  "forward_search doc txt td =
     (if td < length doc
      then (if \<not> punct_or_space (doc ! td) \<and> matches (doc ! td) txt
            then (td + 1, Some (doc ! td))
            else forward_search doc txt (td + 1))
      else (td, None))"
  by pat_completeness auto
termination
  by (relation "measure (\<lambda>(doc, txt, td). length doc - td)") auto

text \<open>What the forward search looks for: a token at position \<open>j\<close> that is neither
  punctuation nor whitespace and whose normalized text is the word's.\<close>

definition search_hit :: "token list \<Rightarrow> string \<Rightarrow> nat \<Rightarrow> bool" where
  "search_hit doc txt j = (j < length doc \<and> \<not> punct_or_space (doc ! j) \<and> matches (doc ! j) txt)"

text \<open>
  The state of the loop over the words of a sentence: the store of the segment's words,
  the cursor \<open>tok\<close> into the tagged unit and the counter \<^verbatim>\<open>progress["annotated"]\<close>
  (\<^verbatim>\<open>show_progress\<close> only prints and is left out).
\<close>

record align_state =
  store :: "word list"
  tok :: nat
  annotated :: nat

text \<open>The alignment of a word that is no special case (lines 326 to 349).\<close>

definition align_word :: "tagger \<Rightarrow> token list \<Rightarrow> word \<Rightarrow> nat \<Rightarrow> word \<times> nat" where
  "align_word nlp doc w tok0 =
     (let txt = get_text w;
          tok1 = skip_punct doc tok0
      in if tok1 < length doc \<and> matches (doc ! tok1) txt
         then (fill_word_annotation w (doc ! tok1), tok1 + 1)
         else (case forward_search doc txt tok1 of
                 (td, Some t) \<Rightarrow> (fill_word_annotation w t, td)
               | (td, None) \<Rightarrow>
                   (update_annotation w (annotate_fallback nlp (strip_punct (lower txt))), td)))"

text \<open>The body of \<^verbatim>\<open>for w in sent\<close>, for the word at reference \<open>r\<close>.\<close>

definition annotate_word :: "tagger \<Rightarrow> token list \<Rightarrow> ref \<Rightarrow> align_state \<Rightarrow> align_state" where
  "annotate_word nlp doc r s =
     (let w = store s ! r;
          txt = get_text w
      in if w_foreign w = Some ''1''
         then s\<lparr>annotated := annotated s + 1\<rparr>
         else if endswith txt ''-''
         then s\<lparr>store := (store s)[r := w\<lparr>w_pos := Some ''self-correction''\<rparr>],
                annotated := annotated s + 1\<rparr>
         else if lower txt = ''eeh''
         then s\<lparr>store := (store s)[r := w\<lparr>w_pos := Some ''INTJ'', w_lemma := Some txt,
                                          w_dep := Some '''', w_head_text := Some '''',
                                          w_morph := Some (PDict [])\<rparr>],
                annotated := annotated s + 1\<rparr>
         else (case align_word nlp doc w (tok s) of
                 (w', tok') \<Rightarrow>
                   s\<lparr>store := (store s)[r := w'], tok := tok', annotated := annotated s + 1\<rparr>))"

fun annotate_words :: "tagger \<Rightarrow> token list \<Rightarrow> ref list \<Rightarrow> align_state \<Rightarrow> align_state" where
  "annotate_words nlp doc [] s = s"
| "annotate_words nlp doc (r # sent) s = annotate_words nlp doc sent (annotate_word nlp doc r s)"

text \<open>
  The context window of sentence \<open>i\<close> (the sentence before it, the sentence, the one after
  it) and the string given to the tagger.
\<close>

definition context_window :: "ref list list \<Rightarrow> nat \<Rightarrow> ref list" where
  "context_window sl i =
     (if i > 0 then sl ! (i - 1) else []) @ sl ! i @ (if i < length sl - 1 then sl ! (i + 1) else [])"

definition context_string :: "word list \<Rightarrow> ref list \<Rightarrow> string" where
  "context_string st ctx = join '' '' (map (\<lambda>w. lower (get_text (st ! w))) ctx)"

text \<open>The body of \<^verbatim>\<open>for i, sent in enumerate(sl)\<close>: the cursor starts at 0 for each
  sentence.\<close>

definition annotate_sentence :: "tagger \<Rightarrow> ref list list \<Rightarrow> nat \<Rightarrow> word list \<times> nat \<Rightarrow> word list \<times> nat" where
  "annotate_sentence nlp sl i sn =
     (let st = fst sn;
          doc = nlp (context_string st (context_window sl i));
          s = annotate_words nlp doc (sl ! i) \<lparr>store = st, tok = 0, annotated = snd sn\<rparr>
      in (store s, annotated s))"

text \<open>The body of \<^verbatim>\<open>for s in segs\<close> in the annotation pass.\<close>

definition annotate_segment :: "tagger \<Rightarrow> word list \<times> nat \<Rightarrow> word list \<times> nat" where
  "annotate_segment nlp sn =
     (let wl = fst sn
      in if wl = [] then sn
         else (let sl = split_into_sentences wl [0..<length wl]
               in fold (annotate_sentence nlp sl) [0..<length sl] sn))"

text \<open>\<^verbatim>\<open>for k in ("pos", "lemma", "dep", "head_text", "morph"): w.pop(k, None)\<close>\<close>

definition clear_word :: "word \<Rightarrow> word" where
  "clear_word w = w\<lparr>w_pos := None, w_lemma := None, w_dep := None,
                    w_head_text := None, w_morph := None\<rparr>"

definition already_annotated :: "segment list \<Rightarrow> bool" where
  "already_annotated segs =
     list_ex (\<lambda>seg. list_ex (\<lambda>w. w_pos w \<noteq> None \<or> w_morph w \<noteq> None) (words seg)) segs"

section \<open>Post-processing: past tense forms\<close>

text \<open>The lexicons of \<^verbatim>\<open>haber\<close>; \<open>CHR 0xE9\<close>, \<open>CHR 0xED\<close> and \<open>CHR 0xE1\<close> are the accented
  e, i and a.\<close>

definition PRESENT_FORMS :: "string list" where
  "PRESENT_FORMS =
     [''he'', ''has'', ''ha'', ''hemos'', ''hab'' @ [CHR 0xE9] @ ''is'', ''han'',
      ''hab'' @ [CHR 0xE9] @ ''s'', ''hab'' @ [CHR 0xED] @ ''s'', ''habemos'']"

definition IMPERFECT_FORMS :: "string list" where
  "IMPERFECT_FORMS =
     [''hab'' @ [CHR 0xED] @ ''a'', ''hab'' @ [CHR 0xED] @ ''as'',
      ''hab'' @ [CHR 0xED] @ ''amos'', ''hab'' @ [CHR 0xED] @ ''ais'',
      ''hab'' @ [CHR 0xED] @ ''an'']"

definition FUTURE_FORMS :: "string list" where
  "FUTURE_FORMS =
     [''habr'' @ [CHR 0xE9], ''habr'' @ [CHR 0xE1] @ ''s'', ''habr'' @ [CHR 0xE1],
      ''habremos'', ''habr'' @ [CHR 0xE9] @ ''is'', ''habr'' @ [CHR 0xE1] @ ''n'']"

definition COND_FORMS :: "string list" where
  "COND_FORMS =
     [''habr'' @ [CHR 0xED] @ ''a'', ''habr'' @ [CHR 0xED] @ ''as'',
      ''habr'' @ [CHR 0xED] @ ''amos'', ''habr'' @ [CHR 0xED] @ ''ais'',
      ''habr'' @ [CHR 0xED] @ ''an'']"

text \<open>\<^verbatim>\<open>set_past_tense_type\<close>: a morphology entry that is no dict is replaced by an empty
  one first.\<close>

definition set_past_tense_type :: "word \<Rightarrow> string \<Rightarrow> word" where
  "set_past_tense_type w_obj label =
     (let d = (case w_morph w_obj of Some (PDict d) \<Rightarrow> d | _ \<Rightarrow> [])
      in w_obj\<lparr>w_morph := Some (PDict (dict_set d ''Past_Tense_Type'' (PStr label)))\<rparr>)"

text \<open>
  The loop of \<^verbatim>\<open>detect_compound_any_fallback\<close> over the siblings: \<open>p\<close> is the reference
  of the participle (\<^verbatim>\<open>sibling is part_word\<close> compares references).
  \<^verbatim>\<open>morph.get\<close> on a morphology entry that is no dict raises AttributeError.
\<close>

fun sibling_loop :: "word list \<Rightarrow> ref \<Rightarrow> string \<Rightarrow> ref list \<Rightarrow> error + (bool \<times> word list)" where
  "sibling_loop st p part_text_lower [] = Inr (False, st)"
| "sibling_loop st p part_text_lower (sibling # rest) =
     (if sibling = p then sibling_loop st p part_text_lower rest
      else if w_pos (st ! sibling) = Some ''AUX''
      then (case get_morph (st ! sibling) of
              PDict m \<Rightarrow>
                (case py_in ''Pres'' (dict_get m ''Tense'' (PList [])) of
                   Inl e \<Rightarrow> Inl e
                 | Inr pres \<Rightarrow>
                     if pres \<and> lower (get_head_text (st ! sibling)) = part_text_lower
                     then Inr (True, st[p := set_past_tense_type (st ! p) ''PerfectoCompuesto''])
                     else sibling_loop st p part_text_lower rest)
            | _ \<Rightarrow> Inl AttributeError)
      else sibling_loop st p part_text_lower rest)"

text \<open>\<^verbatim>\<open>part_word["text"]\<close> raises KeyError on a word without text.\<close>

definition detect_compound_any_fallback :: "word list \<Rightarrow> ref \<Rightarrow> ref list \<Rightarrow> error + (bool \<times> word list)" where
  "detect_compound_any_fallback st part_word seg_words =
     (case w_text (st ! part_word) of
        None \<Rightarrow> Inl KeyError
      | Some t \<Rightarrow> sibling_loop st part_word (lower t) seg_words)"

definition classify_past_tense_form :: "word list \<Rightarrow> ref \<Rightarrow> ref list \<Rightarrow> error + word list" where
  "classify_past_tense_form st w_obj seg_words =
     (case get_morph (st ! w_obj) of
        PDict morph \<Rightarrow>
          (let tense_vals = dict_get morph ''Tense'' (PList []);
               verbform_vals = dict_get morph ''VerbForm'' (PList []);
               label = (\<lambda>l. Inr (st[w_obj := set_past_tense_type (st ! w_obj) l]))
           in case py_in ''Past'' tense_vals of
                Inl e \<Rightarrow> Inl e
              | Inr past \<Rightarrow>
                  if \<not> past then Inr st
                  else (case py_in ''Fin'' verbform_vals of
                          Inl e \<Rightarrow> Inl e
                        | Inr fin \<Rightarrow>
                            if fin then label ''PerfectoSimple''
                            else (case py_in ''Part'' verbform_vals of
                                    Inl e \<Rightarrow> Inl e
                                  | Inr part \<Rightarrow>
                                      if part
                                      then (let aux_raw = lower (get_head_text (st ! w_obj))
                                            in if aux_raw \<in> set PRESENT_FORMS
                                               then label ''PerfectoCompuesto''
                                               else if aux_raw \<in> set IMPERFECT_FORMS
                                               then label ''Pluscuamperfecto''
                                               else if aux_raw \<in> set FUTURE_FORMS
                                               then label ''FuturoPerfecto''
                                               else if aux_raw \<in> set COND_FORMS
                                               then label ''CondicionalPerfecto''
                                               else (case detect_compound_any_fallback st w_obj seg_words of
                                                       Inl e \<Rightarrow> Inl e
                                                     | Inr (found, st') \<Rightarrow>
                                                         if found then Inr st'
                                                         else Inr (st'[w_obj := set_past_tense_type (st' ! w_obj)
                                                                                 ''OtroCompuesto''])))
                                      else label ''PastOther'')))
      | _ \<Rightarrow> Inr st)"

text \<open>The loop \<^verbatim>\<open>for w_obj in seg_words\<close> of \<^verbatim>\<open>post_process_compound_tenses\<close>.\<close>

fun tenses_loop :: "word list \<Rightarrow> ref list \<Rightarrow> ref list \<Rightarrow> error + word list" where
  "tenses_loop st seg_words [] = Inr st"
| "tenses_loop st seg_words (w_obj # rest) =
     (case get_morph (st ! w_obj) of
        PDict morph \<Rightarrow>
          (case py_in ''Past'' (dict_get morph ''Tense'' (PList [])) of
             Inl e \<Rightarrow> Inl e
           | Inr past \<Rightarrow>
               if past
               then (case classify_past_tense_form st w_obj seg_words of
                       Inl e \<Rightarrow> Inl e
                     | Inr st' \<Rightarrow> tenses_loop st' seg_words rest)
               else tenses_loop st seg_words rest)
      | _ \<Rightarrow> tenses_loop st seg_words rest)"

definition tenses_segment :: "segment \<Rightarrow> error + segment" where
  "tenses_segment seg =
     (let seg_words = [0..<length (words seg)]
      in case tenses_loop (words seg) seg_words seg_words of
           Inl e \<Rightarrow> Inl e
         | Inr st \<Rightarrow> Inr (seg\<lparr>words := st\<rparr>))"

text \<open>A loop over the segments stops at the first exception.\<close>

fun for_segments :: "(segment \<Rightarrow> error + segment) \<Rightarrow> segment list \<Rightarrow> error + segment list" where
  "for_segments f [] = Inr []"
| "for_segments f (seg # segs) =
     (case f seg of
        Inl e \<Rightarrow> Inl e
      | Inr seg' \<Rightarrow> (case for_segments f segs of
                       Inl e \<Rightarrow> Inl e
                     | Inr segs' \<Rightarrow> Inr (seg' # segs')))"

definition post_process_compound_tenses :: "transcript \<Rightarrow> error + transcript" where
  "post_process_compound_tenses data =
     (case for_segments tenses_segment (segments data) of
        Inl e \<Rightarrow> Inl e
      | Inr segs \<Rightarrow> Inr (data\<lparr>segments := segs\<rparr>))"

section \<open>Post-processing: analytic future\<close>

text \<open>\<^verbatim>\<open>v[k]\<close> with a string key: a dict without the key raises KeyError, a value that is
  no dict raises TypeError.\<close>

fun py_getitem :: "pyval \<Rightarrow> string \<Rightarrow> error + pyval" where
  "py_getitem (PDict d) k = (case map_of d k of Some v \<Rightarrow> Inr v | None \<Rightarrow> Inl KeyError)"
| "py_getitem v k = Inl TypeError"

text \<open>
  The test of one window and the choice of the label (lines 261 to 282): \<open>Inr None\<close>
  when the window is no match or its label stays \<^verbatim>\<open>None\<close>. The conjuncts are evaluated
  from left to right and only as far as needed, as \<^verbatim>\<open>and\<close> does.
\<close>

definition future_label :: "word \<Rightarrow> word \<Rightarrow> word \<Rightarrow> error + string option" where
  "future_label w1 w2 w3 =
     (let pos1 = w_pos w1; morph1 = get_morph w1;
          pos2 = w_pos w2; txt2 = lower (get_text w2);
          pos3 = w_pos w3; morph3 = get_morph w3
      in if pos1 \<noteq> Some ''AUX'' then Inr None
         else (case py_in ''Tense'' morph1 of
                 Inl e \<Rightarrow> Inl e
               | Inr has_tense \<Rightarrow>
                   if \<not> (has_tense \<and> txt2 = ''a'' \<and> pos2 = Some ''ADP'' \<and> pos3 = Some ''VERB'')
                   then Inr None
                   else (case morph3 of
                           PDict m3 \<Rightarrow>
                             (case py_in ''Inf'' (dict_get m3 ''VerbForm'' (PList [])) of
                                Inl e \<Rightarrow> Inl e
                              | Inr infinitive \<Rightarrow>
                                  if \<not> infinitive then Inr None
                                  else (case py_getitem morph1 ''Tense'' of
                                          Inl e \<Rightarrow> Inl e
                                        | Inr tense1 \<Rightarrow>
                                            (case py_in ''Pres'' tense1 of
                                               Inl e \<Rightarrow> Inl e
                                             | Inr pres \<Rightarrow>
                                                 if pres then Inr (Some ''analyticalFuture'')
                                                 else (case py_in ''Imp'' tense1 of
                                                         Inl e \<Rightarrow> Inl e
                                                       | Inr imp \<Rightarrow>
                                                           if imp then Inr (Some ''analyticalFuture_past'')
                                                           else Inr None))))
                         | _ \<Rightarrow> Inl AttributeError)))"

text \<open>\<^verbatim>\<open>w3.setdefault("morph", {}); w3["morph"]["Future_Type"] = label\<close>\<close>

definition write_future_type :: "word \<Rightarrow> string \<Rightarrow> error + word" where
  "write_future_type w3 label =
     (case w_morph w3 of
        None \<Rightarrow> Inr (w3\<lparr>w_morph := Some (PDict [(''Future_Type'', PStr label)])\<rparr>)
      | Some (PDict d) \<Rightarrow> Inr (w3\<lparr>w_morph := Some (PDict (dict_set d ''Future_Type'' (PStr label)))\<rparr>)
      | Some _ \<Rightarrow> Inl TypeError)"

text \<open>The loop \<^verbatim>\<open>for i in range(len(words) - 2)\<close>.\<close>

fun futures_loop :: "word list \<Rightarrow> nat list \<Rightarrow> error + word list" where
  "futures_loop st [] = Inr st"
| "futures_loop st (i # rest) =
     (case future_label (st ! i) (st ! (i + 1)) (st ! (i + 2)) of
        Inl e \<Rightarrow> Inl e
      | Inr None \<Rightarrow> futures_loop st rest
      | Inr (Some label) \<Rightarrow>
          (case write_future_type (st ! (i + 2)) label of
             Inl e \<Rightarrow> Inl e
           | Inr w3 \<Rightarrow> futures_loop (st[i + 2 := w3]) rest))"

definition futures_segment :: "segment \<Rightarrow> error + segment" where
  "futures_segment seg =
     (case futures_loop (words seg) [0..<length (words seg) - 2] of
        Inl e \<Rightarrow> Inl e
      | Inr st \<Rightarrow> Inr (seg\<lparr>words := st\<rparr>))"

definition post_process_compound_futures :: "transcript \<Rightarrow> error + transcript" where
  "post_process_compound_futures data =
     (case for_segments futures_segment (segments data) of
        Inl e \<Rightarrow> Inl e
      | Inr segs \<Rightarrow> Inr (data\<lparr>segments := segs\<rparr>))"

section \<open>The main routine\<close>

definition clear_annotations :: "transcript \<Rightarrow> transcript" where
  "clear_annotations data =
     data\<lparr>segments := map (\<lambda>s. s\<lparr>words := map clear_word (words s)\<rparr>) (segments data)\<rparr>"

text \<open>The annotation pass over the segments, with the progress counter.\<close>

fun annotate_segments :: "tagger \<Rightarrow> segment list \<Rightarrow> nat \<Rightarrow> segment list \<times> nat" where
  "annotate_segments nlp [] n = ([], n)"
| "annotate_segments nlp (s # segs) n =
     (case annotate_segment nlp (words s, n) of
        (wl, n') \<Rightarrow> (case annotate_segments nlp segs n' of
                       (segs', n'') \<Rightarrow> (s\<lparr>words := wl\<rparr> # segs', n'')))"

text \<open>What \<^verbatim>\<open>annotate_file\<close> does after the old annotations are removed: annotation and
  the two post-processing passes. The result is the data written back to the file.\<close>

definition annotate_cleared :: "tagger \<Rightarrow> transcript \<Rightarrow> nat \<Rightarrow> error + (transcript \<times> nat)" where
  "annotate_cleared nlp data n =
     (case annotate_segments nlp (segments data) n of
        (segs, n') \<Rightarrow>
          (case post_process_compound_tenses (data\<lparr>segments := segs\<rparr>) of
             Inl e \<Rightarrow> Inl e
           | Inr data1 \<Rightarrow>
               (case post_process_compound_futures data1 of
                  Inl e \<Rightarrow> Inl e
                | Inr data2 \<Rightarrow> Inr (data2, n'))))"

definition annotate_file :: "tagger \<Rightarrow> transcript \<Rightarrow> nat \<Rightarrow> error + (transcript \<times> nat)" where
  "annotate_file nlp data n = annotate_cleared nlp (clear_annotations data) n"

text \<open>
  \<^verbatim>\<open>main\<close>: the directory is a function from the file names to the transcripts stored in
  them, \<open>choice\<close> is the answer to the first question (\<^verbatim>\<open>all\<close>, a number, or anything
  else) and \<open>overwrite_existing\<close> the answer to the second. The result is the directory
  afterwards and the exception that ended the run, if one did.
\<close>

datatype choice = All | Count nat | Invalid

text \<open>The first loop of \<^verbatim>\<open>main\<close>: the files that are not skipped, and the number of their
  words.\<close>

definition filtered_files :: "bool \<Rightarrow> (string \<Rightarrow> transcript) \<Rightarrow> string list \<Rightarrow> string list" where
  "filtered_files overwrite_existing disk files_to_process =
     filter (\<lambda>fname. \<not> (\<not> overwrite_existing \<and> already_annotated (segments (disk fname))))
       files_to_process"

definition word_count :: "transcript \<Rightarrow> nat" where
  "word_count data = sum_list (map (\<lambda>seg. length (words seg)) (segments data))"

definition total_words_to_annotate :: "(string \<Rightarrow> transcript) \<Rightarrow> string list \<Rightarrow> nat" where
  "total_words_to_annotate disk files = sum_list (map (\<lambda>fname. word_count (disk fname)) files)"

text \<open>
  \<^verbatim>\<open>file_finished_message\<close> computes \<^verbatim>\<open>100.0 * annotated / total\<close> and prints it: with no
  word to annotate the division raises.
\<close>

definition file_finished_message :: "nat \<Rightarrow> nat \<Rightarrow> error + unit" where
  "file_finished_message annotated_words total_words =
     (if total_words = 0 then Inl ZeroDivisionError else Inr ())"

text \<open>The second loop of \<^verbatim>\<open>main\<close>: \<^verbatim>\<open>annotate_file\<close> writes the file before
  \<^verbatim>\<open>file_finished_message\<close> is called.\<close>

fun process_files :: "tagger \<Rightarrow> string list \<Rightarrow> (string \<Rightarrow> transcript) \<Rightarrow> nat \<Rightarrow> nat \<Rightarrow> (string \<Rightarrow> transcript) \<times> error option" where
  "process_files nlp [] disk n total_words = (disk, None)"
| "process_files nlp (fname # rest) disk n total_words =
     (case annotate_file nlp (disk fname) n of
        Inl e \<Rightarrow> (disk, Some e)
      | Inr (data, n') \<Rightarrow>
          (case file_finished_message n' total_words of
             Inl e \<Rightarrow> (disk(fname := data), Some e)
           | Inr _ \<Rightarrow> process_files nlp rest (disk(fname := data)) n' total_words))"

text \<open>The files that the answer to the first question selects; an answer that is
  neither \<^verbatim>\<open>all\<close> nor a number ends \<^verbatim>\<open>main\<close> at once, and so does a run with no file
  left to annotate.\<close>

definition chosen_files :: "choice \<Rightarrow> string list \<Rightarrow> string list" where
  "chosen_files ch all_files =
     (case ch of All \<Rightarrow> all_files | Count k \<Rightarrow> take k all_files | Invalid \<Rightarrow> [])"

definition main :: "tagger \<Rightarrow> string list \<Rightarrow> choice \<Rightarrow> bool \<Rightarrow> (string \<Rightarrow> transcript) \<Rightarrow> (string \<Rightarrow> transcript) \<times> error option" where
  "main nlp all_files ch overwrite_existing disk =
     (case ch of
        Invalid \<Rightarrow> (disk, None)
      | _ \<Rightarrow>
          (let filtered = filtered_files overwrite_existing disk (chosen_files ch all_files);
               total_words = total_words_to_annotate disk filtered
           in if filtered = [] then (disk, None)
              else process_files nlp filtered disk 0 total_words))"

section \<open>What the post-processing passes and the pipeline establish\<close>

text \<open>
  The definitions of this section follow the words of the specification; the theorems
  below compare them with the functions above.
\<close>

text \<open>A word has the feature \<open>k\<close>: its morphology is a mapping with the key \<open>k\<close>.\<close>

definition has_feature :: "word \<Rightarrow> string \<Rightarrow> bool" where
  "has_feature w k = (case get_morph w of PDict d \<Rightarrow> k \<in> set (map fst d) | _ \<Rightarrow> False)"

text \<open>The values of the feature \<open>k\<close> of a word contain \<open>x\<close>: the morphology is a mapping
  and \<^verbatim>\<open>x in morph.get(k, [])\<close> is true.\<close>

definition feature_contains :: "word \<Rightarrow> string \<Rightarrow> string \<Rightarrow> bool" where
  "feature_contains w k x =
     (case get_morph w of PDict d \<Rightarrow> py_in x (dict_get d k (PList [])) = Inr True | _ \<Rightarrow> False)"

text \<open>The label of a window of three consecutive words, if it has one.\<close>

definition analytic_future_label :: "word \<Rightarrow> word \<Rightarrow> word \<Rightarrow> string option" where
  "analytic_future_label w1 w2 w3 =
     (if w_pos w1 = Some ''AUX'' \<and> has_feature w1 ''Tense'' \<and>
         lower (get_text w2) = ''a'' \<and> w_pos w2 = Some ''ADP'' \<and>
         w_pos w3 = Some ''VERB'' \<and> feature_contains w3 ''VerbForm'' ''Inf''
      then (if feature_contains w1 ''Tense'' ''Pres'' then Some ''analyticalFuture''
            else if feature_contains w1 ''Tense'' ''Imp'' then Some ''analyticalFuture_past''
            else None)
      else None)"

definition morph_dict :: "word \<Rightarrow> (string \<times> pyval) list" where
  "morph_dict w = (case w_morph w of Some (PDict d) \<Rightarrow> d | _ \<Rightarrow> [])"

text \<open>A \<open>Future_Type\<close> entry written into the morphology of a word.\<close>

definition add_future_type :: "word \<Rightarrow> string \<Rightarrow> word" where
  "add_future_type w label =
     w\<lparr>w_morph := Some (PDict (dict_set (morph_dict w) ''Future_Type'' (PStr label)))\<rparr>"

text \<open>What the detector leaves at position \<open>j\<close> of a segment: the word with the label of
  the window that ends at \<open>j\<close>, or the word as it was.\<close>

definition detector_result :: "word list \<Rightarrow> nat \<Rightarrow> word" where
  "detector_result ws j =
     (if 2 \<le> j
      then (case analytic_future_label (ws ! (j - 2)) (ws ! (j - 1)) (ws ! j) of
              Some label \<Rightarrow> add_future_type (ws ! j) label
            | None \<Rightarrow> ws ! j)
      else ws ! j)"

definition future_marked :: "word \<Rightarrow> word \<Rightarrow> bool" where
  "future_marked w w' =
     (w' = w \<or> (\<exists>l d. w_morph w = Some (PDict d) \<and> w' = add_future_type w l))"

text \<open>
  The decision order of the tense classifier for a word with a past tense: \<open>fold_case\<close>
  is what is done to the participle's text before the heads of the auxiliaries of the
  segment are compared with it.
\<close>

definition past_tense_label_with :: "(string \<Rightarrow> string) \<Rightarrow> word list \<Rightarrow> ref \<Rightarrow> string" where
  "past_tense_label_with fold_case st p =
     (let w = st ! p
      in if feature_contains w ''VerbForm'' ''Fin'' then ''PerfectoSimple''
         else if feature_contains w ''VerbForm'' ''Part''
         then (let aux = lower (get_head_text w)
               in if aux \<in> set PRESENT_FORMS then ''PerfectoCompuesto''
                  else if aux \<in> set IMPERFECT_FORMS then ''Pluscuamperfecto''
                  else if aux \<in> set FUTURE_FORMS then ''FuturoPerfecto''
                  else if aux \<in> set COND_FORMS then ''CondicionalPerfecto''
                  else if list_ex (\<lambda>j. j \<noteq> p \<and> w_pos (st ! j) = Some ''AUX'' \<and>
                                       feature_contains (st ! j) ''Tense'' ''Pres'' \<and>
                                       lower (get_head_text (st ! j)) = fold_case (get_text w))
                            [0..<length st]
                  then ''PerfectoCompuesto''
                  else ''OtroCompuesto'')
         else ''PastOther'')"

text \<open>The code lower-cases the participle's text as well.\<close>

definition past_tense_label :: "word list \<Rightarrow> ref \<Rightarrow> string" where
  "past_tense_label st p = past_tense_label_with lower st p"

text \<open>The claim as it is worded compares with the participle's text as it stands.\<close>

definition claimed_past_tense_label :: "word list \<Rightarrow> ref \<Rightarrow> string" where
  "claimed_past_tense_label st p = past_tense_label_with (\<lambda>t. t) st p"

text \<open>What the classifier leaves at position \<open>j\<close> of a segment.\<close>

definition classifier_result :: "word list \<Rightarrow> nat \<Rightarrow> word" where
  "classifier_result ws j =
     (if feature_contains (ws ! j) ''Tense'' ''Past''
      then set_past_tense_type (ws ! j) (past_tense_label ws j)
      else ws ! j)"

definition aux_sibling :: "word list \<Rightarrow> ref \<Rightarrow> string \<Rightarrow> nat \<Rightarrow> bool" where
  "aux_sibling st p part_text_lower j =
     (j \<noteq> p \<and> w_pos (st ! j) = Some ''AUX'' \<and> feature_contains (st ! j) ''Tense'' ''Pres'' \<and>
      lower (get_head_text (st ! j)) = part_text_lower)"

definition past_marked :: "word \<Rightarrow> word \<Rightarrow> bool" where
  "past_marked w w' =
     (w' = w \<or> (\<exists>l d. w_morph w = Some (PDict d) \<and> w' = set_past_tense_type w l))"

text \<open>The outcomes of the annotation for a word: untouched, self-correction, or full.\<close>

definition cleared :: "word \<Rightarrow> bool" where
  "cleared w = (w_pos w = None \<and> w_lemma w = None \<and> w_dep w = None \<and>
                w_head_text w = None \<and> w_morph w = None)"

definition fully_annotated :: "word \<Rightarrow> bool" where
  "fully_annotated w = (w_pos w \<noteq> None \<and> w_lemma w \<noteq> None \<and> w_dep w \<noteq> None \<and>
                        w_head_text w \<noteq> None \<and> w_morph w \<noteq> None)"

definition word_outcome :: "word \<Rightarrow> bool" where
  "word_outcome w =
     ((w_foreign w = Some ''1'' \<and> cleared w) \<or>
      (w_foreign w \<noteq> Some ''1'' \<and> endswith (get_text w) ''-'' \<and>
       w_pos w = Some ''self-correction'' \<and> w_lemma w = None \<and> w_dep w = None \<and>
       w_head_text w = None \<and> w_morph w = None) \<or>
      (w_foreign w \<noteq> Some ''1'' \<and> \<not> endswith (get_text w) ''-'' \<and> fully_annotated w))"

text \<open>The invariant of the annotation loops: every word is still cleared or has its
  outcome, and the words of the references in \<open>R\<close> have theirs.\<close>

definition progress_inv :: "word list \<Rightarrow> nat set \<Rightarrow> bool" where
  "progress_inv st R =
     ((\<forall>j<length st. cleared (st ! j) \<or> word_outcome (st ! j)) \<and>
      (\<forall>j\<in>R. j < length st \<longrightarrow> word_outcome (st ! j)))"

text \<open>
  Well-formed input of the post-processing passes: the values of a morphology mapping
  are strings, lists or mappings (what \<^verbatim>\<open>in\<close> accepts on its right), and a word has a
  text. A tagger is well-formed when the morphology of each of its tokens is.
\<close>

definition iterable :: "pyval \<Rightarrow> bool" where
  "iterable v = (case v of PStr _ \<Rightarrow> True | PList _ \<Rightarrow> True | PDict _ \<Rightarrow> True | _ \<Rightarrow> False)"

definition well_formed_morph :: "word \<Rightarrow> bool" where
  "well_formed_morph w =
     (case w_morph w of
        None \<Rightarrow> True
      | Some (PDict d) \<Rightarrow> list_all (\<lambda>kv. iterable (snd kv)) d
      | Some _ \<Rightarrow> False)"

definition well_formed_word :: "word \<Rightarrow> bool" where
  "well_formed_word w = (w_text w \<noteq> None \<and> well_formed_morph w)"

definition well_formed_token :: "token \<Rightarrow> bool" where
  "well_formed_token t = list_all (\<lambda>kv. iterable (snd kv)) (t_morph t)"

definition well_formed_tagger :: "tagger \<Rightarrow> bool" where
  "well_formed_tagger nlp = (\<forall>s. list_all well_formed_token (nlp s))"


section \<open>Sample data\<close>

text \<open>A word as a transcript has it before annotation: its text and nothing else.\<close>

definition plain_word :: "string \<Rightarrow> word" where
  "plain_word t = \<lparr>w_text = Some t, w_foreign = None, w_pos = None, w_lemma = None,
                   w_dep = None, w_head_text = None, w_morph = None, w_rest = []\<rparr>"

text \<open>A token with its text, its punctuation flag, its part of speech, the text of its
  head and its morphology.\<close>

definition sample_token :: "string \<Rightarrow> bool \<Rightarrow> string \<Rightarrow> string \<Rightarrow> (string \<times> pyval) list \<Rightarrow> token" where
  "sample_token t p tag h m =
     \<lparr>t_text = t, t_is_punct = p, t_is_space = False, t_pos = tag, t_lemma = t,
      t_dep = ''dep'', t_head = Some h, t_morph = m\<rparr>"

definition sample_doc :: "token list" where
  "sample_doc =
     [sample_token '','' True ''PUNCT'' ''va'' [],
      sample_token ''va'' False ''AUX'' ''llover''
        [(''Tense'', PStr ''Pres''), (''VerbForm'', PStr ''Fin'')],
      sample_token ''a'' False ''ADP'' ''llover'' [],
      sample_token ''llover'' False ''VERB'' ''llover'' [(''VerbForm'', PStr ''Inf'')],
      sample_token ''.'' True ''PUNCT'' ''llover'' []]"

definition question_doc :: "token list" where
  "question_doc = [sample_token ''?'' True ''PUNCT'' ''?'' []]"

text \<open>The tagger's answer to the context string of the first sample segment.\<close>

definition weather_doc :: "token list" where
  "weather_doc =
     [sample_token ''va'' False ''AUX'' ''llover''
        [(''Tense'', PStr ''Pres''), (''VerbForm'', PStr ''Fin'')],
      sample_token ''a'' False ''ADP'' ''llover'' [],
      sample_token ''llover'' False ''VERB'' ''llover'' [(''VerbForm'', PStr ''Inf'')],
      sample_token ''.'' True ''PUNCT'' ''llover'' [],
      sample_token ''tu'' False ''X'' ''tu'' [],
      sample_token ''-'' True ''PUNCT'' ''tu'' [],
      sample_token ''eeh'' False ''INTJ'' ''eeh'' [],
      sample_token ''weekend'' False ''NOUN'' ''weekend'' [],
      sample_token ''bueno'' False ''ADJ'' ''bueno'' []]"

text \<open>The tagger's answer to the context string of the second sample segment.\<close>

definition haber_doc :: "token list" where
  "haber_doc =
     [sample_token (''hab'' @ [CHR 0xED] @ ''a'') False ''AUX'' ''comido''
        [(''Tense'', PStr ''Imp''), (''VerbForm'', PStr ''Fin'')],
      sample_token ''comido'' False ''VERB'' (''hab'' @ [CHR 0xED] @ ''a'')
        [(''Tense'', PStr ''Past''), (''VerbForm'', PStr ''Part'')],
      sample_token ''?'' True ''PUNCT'' ''comido'' []]"

text \<open>A tagger that knows the two context strings of the sample transcript and answers
  every other string, the empty one too, with no token.\<close>

definition sample_nlp :: tagger where
  "sample_nlp s =
     (if s = ''va a llover. tu- eeh weekend bueno'' then weather_doc
      else if s = ''hab'' @ [CHR 0xED] @ ''a comido ?'' then haber_doc
      else [])"

definition sample_data :: transcript where
  "sample_data =
     \<lparr>segments =
        [\<lparr>words = [plain_word ''Va'', plain_word ''a'', plain_word ''llover.'',
                   plain_word ''tu-'', plain_word ''Eeh'',
                   (plain_word ''weekend'')\<lparr>w_foreign := Some ''1''\<rparr>,
                   plain_word ''bueno'']\<rparr>,
         \<lparr>words = [plain_word (''Hab'' @ [CHR 0xED] @ ''a''), plain_word ''comido'',
                   plain_word ''?'']\<rparr>]\<rparr>"

text \<open>A transcript that carries annotations already.\<close>

definition annotated_data :: transcript where
  "annotated_data =
     \<lparr>segments = [\<lparr>words = [(plain_word ''Va'')\<lparr>w_pos := Some ''AUX'', w_lemma := Some ''ir''\<rparr>,
                            plain_word ''a'']\<rparr>]\<rparr>"

text \<open>The same transcript annotated again by the sample tagger, which has no token for
  its context string.\<close>

definition reannotated_data :: transcript where
  "reannotated_data =
     \<lparr>segments =
        [\<lparr>words =
            [(plain_word ''Va'')\<lparr>w_pos := Some '''', w_lemma := Some ''va'', w_dep := Some '''',
                w_head_text := Some '''', w_morph := Some (PDict [])\<rparr>,
             (plain_word ''a'')\<lparr>w_pos := Some '''', w_lemma := Some ''a'', w_dep := Some '''',
                w_head_text := Some '''', w_morph := Some (PDict [])\<rparr>]\<rparr>]\<rparr>"




text \<open>An annotated word: text, part of speech, lemma, head text and morphology.\<close>

definition annotated_word :: "string \<Rightarrow> string \<Rightarrow> string \<Rightarrow> string \<Rightarrow> (string \<times> pyval) list \<Rightarrow> word" where
  "annotated_word t tag lem h m =
     (plain_word t)\<lparr>w_pos := Some tag, w_lemma := Some lem, w_dep := Some ''dep'',
                     w_head_text := Some h, w_morph := Some (PDict m)\<rparr>"

text \<open>The sample transcript after the pipeline.\<close>

definition sample_result :: transcript where
  "sample_result =
     \<lparr>segments =
        [\<lparr>words =
            [annotated_word ''Va'' ''AUX'' ''va'' ''llover''
               [(''Tense'', PStr ''Pres''), (''VerbForm'', PStr ''Fin'')],
             annotated_word ''a'' ''ADP'' ''a'' ''llover'' [],
             annotated_word ''llover.'' ''VERB'' ''llover'' ''llover''
               [(''VerbForm'', PStr ''Inf''), (''Future_Type'', PStr ''analyticalFuture'')],
             (plain_word ''tu-'')\<lparr>w_pos := Some ''self-correction''\<rparr>,
             (plain_word ''Eeh'')\<lparr>w_pos := Some ''INTJ'', w_lemma := Some ''Eeh'',
                w_dep := Some '''', w_head_text := Some '''', w_morph := Some (PDict [])\<rparr>,
             (plain_word ''weekend'')\<lparr>w_foreign := Some ''1''\<rparr>,
             annotated_word ''bueno'' ''ADJ'' ''bueno'' ''bueno'' []]\<rparr>,
         \<lparr>words =
            [annotated_word (''Hab'' @ [CHR 0xED] @ ''a'') ''AUX'' (''hab'' @ [CHR 0xED] @ ''a'')
               ''comido'' [(''Tense'', PStr ''Imp''), (''VerbForm'', PStr ''Fin'')],
             annotated_word ''comido'' ''VERB'' ''comido'' (''hab'' @ [CHR 0xED] @ ''a'')
               [(''Tense'', PStr ''Past''), (''VerbForm'', PStr ''Part''),
                (''Past_Tense_Type'', PStr ''Pluscuamperfecto'')],
             (plain_word ''?'')\<lparr>w_pos := Some '''', w_lemma := Some '''', w_dep := Some '''',
                w_head_text := Some '''', w_morph := Some (PDict [])\<rparr>]\<rparr>]\<rparr>"

text \<open>Participles with their auxiliaries, before and after the tense classifier.\<close>

definition past_part :: "(string \<times> pyval) list" where
  "past_part = [(''Tense'', PStr ''Past''), (''VerbForm'', PStr ''Part'')]"

definition haber_data :: transcript where
  "haber_data =
     \<lparr>segments =
        [\<lparr>words =
            [annotated_word (''hab'' @ [CHR 0xED] @ ''a'') ''AUX'' ''haber'' ''comido''
               [(''Tense'', PStr ''Imp''), (''VerbForm'', PStr ''Fin'')],
             annotated_word ''comido'' ''VERB'' ''comer'' (''hab'' @ [CHR 0xED] @ ''a'') past_part]\<rparr>,
         \<lparr>words =
            [annotated_word ''ha'' ''AUX'' ''haber'' ''comido''
               [(''Tense'', PStr ''Pres''), (''VerbForm'', PStr ''Fin'')],
             annotated_word ''comido'' ''VERB'' ''comer'' ''ha'' past_part]\<rparr>]\<rparr>"

definition haber_result :: transcript where
  "haber_result =
     \<lparr>segments =
        [\<lparr>words =
            [annotated_word (''hab'' @ [CHR 0xED] @ ''a'') ''AUX'' ''haber'' ''comido''
               [(''Tense'', PStr ''Imp''), (''VerbForm'', PStr ''Fin'')],
             annotated_word ''comido'' ''VERB'' ''comer'' (''hab'' @ [CHR 0xED] @ ''a'')
               (past_part @ [(''Past_Tense_Type'', PStr ''Pluscuamperfecto'')])]\<rparr>,
         \<lparr>words =
            [annotated_word ''ha'' ''AUX'' ''haber'' ''comido''
               [(''Tense'', PStr ''Pres''), (''VerbForm'', PStr ''Fin'')],
             annotated_word ''comido'' ''VERB'' ''comer'' ''ha''
               (past_part @ [(''Past_Tense_Type'', PStr ''PerfectoCompuesto'')])]\<rparr>]\<rparr>"

text \<open>A capitalised participle and an auxiliary whose head is that participle.\<close>

definition capital_words :: "word list" where
  "capital_words =
     [annotated_word ''Comido'' ''VERB'' ''comer'' ''comido'' past_part,
      annotated_word ''ha'' ''AUX'' ''haber'' ''comido'' [(''Tense'', PStr ''Pres'')]]"

text \<open>Windows of the analytic future, before and after the detector: present,
  imperfect and past auxiliary, and a window cut by a segment boundary.\<close>

definition a_word :: word where
  "a_word = annotated_word ''a'' ''ADP'' ''a'' ''llover'' []"

definition llover_word :: word where
  "llover_word = annotated_word ''llover'' ''VERB'' ''llover'' ''llover'' [(''VerbForm'', PStr ''Inf'')]"

definition future_data :: transcript where
  "future_data =
     \<lparr>segments =
        [\<lparr>words = [annotated_word ''va'' ''AUX'' ''ir'' ''llover'' [(''Tense'', PStr ''Pres'')],
                   a_word, llover_word]\<rparr>,
         \<lparr>words = [annotated_word ''iba'' ''AUX'' ''ir'' ''llover'' [(''Tense'', PStr ''Imp'')],
                   a_word, llover_word]\<rparr>,
         \<lparr>words = [annotated_word ''fue'' ''AUX'' ''ir'' ''llover'' [(''Tense'', PStr ''Past'')],
                   a_word, llover_word]\<rparr>,
         \<lparr>words = [annotated_word ''va'' ''AUX'' ''ir'' ''llover'' [(''Tense'', PStr ''Pres'')],
                   a_word]\<rparr>,
         \<lparr>words = [llover_word]\<rparr>]\<rparr>"

definition future_result :: transcript where
  "future_result =
     \<lparr>segments =
        [\<lparr>words = [annotated_word ''va'' ''AUX'' ''ir'' ''llover'' [(''Tense'', PStr ''Pres'')],
                   a_word, add_future_type llover_word ''analyticalFuture'']\<rparr>,
         \<lparr>words = [annotated_word ''iba'' ''AUX'' ''ir'' ''llover'' [(''Tense'', PStr ''Imp'')],
                   a_word, add_future_type llover_word ''analyticalFuture_past'']\<rparr>,
         \<lparr>words = [annotated_word ''fue'' ''AUX'' ''ir'' ''llover'' [(''Tense'', PStr ''Past'')],
                   a_word, llover_word]\<rparr>,
         \<lparr>words = [annotated_word ''va'' ''AUX'' ''ir'' ''llover'' [(''Tense'', PStr ''Pres'')],
                   a_word]\<rparr>,
         \<lparr>words = [llover_word]\<rparr>]\<rparr>"



section \<open>Properties\<close>

subsection \<open>Speaker attributes\<close>

lemma mapping_attributes_nonempty:
  "(k, a, b, c, d) \<in> set mapping \<Longrightarrow> a \<noteq> [] \<and> b \<noteq> [] \<and> c \<noteq> [] \<and> d \<noteq> []"
  by (auto simp: mapping_def)

text \<open>
  Claim C9. A speaker name that the lookup table does not have is no error: the function
  is total and returns, for each of professionalism, gender, discourse mode and topic,
  the empty string. That marker is explicit: a name of the table never resolves to it in
  any of the four places (the table's own "not applicable" mode is \<open>n/a\<close>).
\<close>

theorem map_speaker_attributes_unknown:
  "(name \<notin> fst ` set mapping \<longrightarrow>
      map_speaker_attributes name = ('''', '''', '''', '''')) \<and>
   (name \<in> fst ` set mapping \<longrightarrow>
      (case map_speaker_attributes name of (spk, sex, mode, topic) \<Rightarrow>
         spk \<noteq> '''' \<and> sex \<noteq> '''' \<and> mode \<noteq> '''' \<and> topic \<noteq> ''''))"
proof (intro conjI impI)
  assume "name \<notin> fst ` set mapping"
  then have "map_of mapping name = None"
    by (simp add: map_of_eq_None_iff)
  then show "map_speaker_attributes name = ('''', '''', '''', '''')"
    by (simp add: map_speaker_attributes_def)
next
  assume "name \<in> fst ` set mapping"
  then obtain attrs where m: "map_of mapping name = Some attrs"
    by (metis map_of_eq_None_iff not_Some_eq)
  obtain a b c d where attrs: "attrs = (a, b, c, d)"
    by (cases attrs) auto
  from m attrs have "(name, a, b, c, d) \<in> set mapping"
    by (auto dest: map_of_SomeD)
  then have "a \<noteq> [] \<and> b \<noteq> [] \<and> c \<noteq> [] \<and> d \<noteq> []"
    by (rule mapping_attributes_nonempty)
  with m attrs
  show "case map_speaker_attributes name of (spk, sex, mode, topic) \<Rightarrow>
         spk \<noteq> '''' \<and> sex \<noteq> '''' \<and> mode \<noteq> '''' \<and> topic \<noteq> ''''"
    by (simp add: map_speaker_attributes_def)
qed

theorem map_speaker_attributes_unknown_witness:
  "map_speaker_attributes ''xyz-qq'' = ('''', '''', '''', '''') \<and>
   map_speaker_attributes ''lec-of'' = (''otro'', ''f'', ''lectura'', ''general'')"
proof -
  have out: "''xyz-qq'' \<notin> fst ` set mapping"
    by (simp add: mapping_def)
  have known: "map_speaker_attributes ''lec-of'' = (''otro'', ''f'', ''lectura'', ''general'')"
    by (simp add: map_speaker_attributes_def mapping_def)
  from map_speaker_attributes_unknown [of "''xyz-qq''"] out known
  show ?thesis by blast
qed


subsection \<open>The cursor of the aligner\<close>


declare skip_punct.simps [simp del] forward_search.simps [simp del]

lemma skip_punct_ge: "tok0 \<le> skip_punct doc tok0"
proof (induction doc tok0 rule: skip_punct.induct)
  case (1 doc tok)
  show ?case
  proof (cases "tok < length doc \<and> punct_or_space (doc ! tok)")
    case True
    with "1.IH" have "tok + 1 \<le> skip_punct doc (tok + 1)" by simp
    moreover from True have "skip_punct doc tok = skip_punct doc (tok + 1)"
      by (subst skip_punct.simps) simp
    ultimately show ?thesis by simp
  next
    case False
    then have "skip_punct doc tok = tok" by (subst skip_punct.simps) auto
    then show ?thesis by simp
  qed
qed

lemma skip_punct_le: "tok0 \<le> length doc \<Longrightarrow> skip_punct doc tok0 \<le> length doc"
proof (induction doc tok0 rule: skip_punct.induct)
  case (1 doc tok)
  show ?case
  proof (cases "tok < length doc \<and> punct_or_space (doc ! tok)")
    case True
    then have "skip_punct doc tok = skip_punct doc (tok + 1)"
      by (subst skip_punct.simps) simp
    with True "1.IH" show ?thesis by simp
  next
    case False
    then have "skip_punct doc tok = tok" by (subst skip_punct.simps) auto
    with "1.prems" show ?thesis by simp
  qed
qed

lemma skip_punct_skipped:
  "tok0 \<le> k \<Longrightarrow> k < skip_punct doc tok0 \<Longrightarrow> punct_or_space (doc ! k)"
proof (induction doc tok0 rule: skip_punct.induct)
  case (1 doc tok)
  show ?case
  proof (cases "tok < length doc \<and> punct_or_space (doc ! tok)")
    case True
    then have eq: "skip_punct doc tok = skip_punct doc (tok + 1)"
      by (subst skip_punct.simps) simp
    show ?thesis
    proof (cases "k = tok")
      case True
      with \<open>tok < length doc \<and> punct_or_space (doc ! tok)\<close> show ?thesis by simp
    next
      case False
      with "1.prems" have "tok + 1 \<le> k" by simp
      with "1.IH" True "1.prems" eq show ?thesis by simp
    qed
  next
    case False
    then have "skip_punct doc tok = tok" by (subst skip_punct.simps) auto
    with "1.prems" show ?thesis by simp
  qed
qed

lemma skip_punct_stops:
  "skip_punct doc tok0 < length doc \<Longrightarrow> \<not> punct_or_space (doc ! skip_punct doc tok0)"
proof (induction doc tok0 rule: skip_punct.induct)
  case (1 doc tok)
  show ?case
  proof (cases "tok < length doc \<and> punct_or_space (doc ! tok)")
    case True
    then have eq: "skip_punct doc tok = skip_punct doc (tok + 1)"
      by (subst skip_punct.simps) simp
    with True "1.IH" "1.prems" show ?thesis by simp
  next
    case False
    then have "skip_punct doc tok = tok" by (subst skip_punct.simps) auto
    with "1.prems" False show ?thesis by simp
  qed
qed

lemma forward_search_found:
  "c \<le> j \<Longrightarrow> search_hit doc x j \<Longrightarrow> (\<forall>k. c \<le> k \<and> k < j \<longrightarrow> \<not> search_hit doc x k) \<Longrightarrow>
   forward_search doc x c = (j + 1, Some (doc ! j))"
proof (induction doc x c rule: forward_search.induct)
  case (1 doc x td)
  from "1.prems" have lt: "td < length doc" by (simp add: search_hit_def)
  show ?case
  proof (cases "td = j")
    case True
    with "1.prems" show ?thesis
      by (subst forward_search.simps) (simp add: search_hit_def)
  next
    case False
    with "1.prems" have nohit: "\<not> search_hit doc x td" and le: "td + 1 \<le> j" by auto
    from nohit lt have "\<not> (\<not> punct_or_space (doc ! td) \<and> matches (doc ! td) x)"
      by (simp add: search_hit_def)
    with lt have eq: "forward_search doc x td = forward_search doc x (td + 1)"
      by (subst forward_search.simps) auto
    from "1.IH" [OF lt _ le "1.prems"(2)] "1.prems"(3) nohit lt
    have "forward_search doc x (td + 1) = (j + 1, Some (doc ! j))"
      by (auto simp: search_hit_def)
    with eq show ?thesis by simp
  qed
qed

lemma forward_search_none:
  "c \<le> length doc \<Longrightarrow> (\<forall>k. c \<le> k \<and> k < length doc \<longrightarrow> \<not> search_hit doc x k) \<Longrightarrow>
   forward_search doc x c = (length doc, None)"
proof (induction doc x c rule: forward_search.induct)
  case (1 doc x td)
  show ?case
  proof (cases "td < length doc")
    case True
    with "1.prems" have nohit: "\<not> search_hit doc x td" by simp
    with True have no: "\<not> (\<not> punct_or_space (doc ! td) \<and> matches (doc ! td) x)"
      by (simp add: search_hit_def)
    with True have eq: "forward_search doc x td = forward_search doc x (td + 1)"
      by (subst forward_search.simps) auto
    from "1.IH" [OF True no] True "1.prems"(2)
    have "forward_search doc x (td + 1) = (length doc, None)" by simp
    with eq show ?thesis by simp
  next
    case False
    with "1.prems" have "td = length doc" by simp
    then show ?thesis by (subst forward_search.simps) simp
  qed
qed



lemma forward_search_no_hit:
  "(\<forall>k. c \<le> k \<and> k < length doc \<longrightarrow> \<not> search_hit doc x k) \<Longrightarrow> snd (forward_search doc x c) = None"
proof (induction doc x c rule: forward_search.induct)
  case (1 doc x td)
  show ?case
  proof (cases "td < length doc")
    case True
    with "1.prems" have nohit: "\<not> search_hit doc x td" by simp
    with True have no: "\<not> (\<not> punct_or_space (doc ! td) \<and> matches (doc ! td) x)"
      by (simp add: search_hit_def)
    with True have eq: "forward_search doc x td = forward_search doc x (td + 1)"
      by (subst forward_search.simps) auto
    from "1.IH" [OF True no] "1.prems"
    have "snd (forward_search doc x (td + 1)) = None" by simp
    with eq show ?thesis by simp
  next
    case False
    then show ?thesis by (subst forward_search.simps) simp
  qed
qed

lemma annotate_word_plain:
  "w_foreign (store s ! r) \<noteq> Some ''1'' \<Longrightarrow> \<not> endswith (get_text (store s ! r)) ''-'' \<Longrightarrow>
   lower (get_text (store s ! r)) \<noteq> ''eeh'' \<Longrightarrow>
   annotate_word nlp doc r s =
     s\<lparr>store := (store s)[r := fst (align_word nlp doc (store s ! r) (tok s))],
       tok := snd (align_word nlp doc (store s ! r) (tok s)),
       annotated := annotated s + 1\<rparr>"
  by (simp add: annotate_word_def Let_def split: prod.split)


text \<open>
  Claim C5. For a word that is no special case, with the cursor inside the tagged unit:
  the aligner first moves the cursor to \<open>c\<close>, past every token flagged as punctuation or
  whitespace (\<open>c\<close> is the first position from the cursor on whose token is not flagged, or
  the end of the unit). If the token at \<open>c\<close> equals the word under normalization, the word
  gets that token's fields (its part of speech, its lemma, its dependency label, the
  text of its head, empty when it has none, and its morphology as a mapping) and the
  cursor is \<open>c + 1\<close>. Otherwise the first position \<open>j\<close> from \<open>c\<close> on with an unflagged token
  of the word's normalized text gives the word its five fields and the cursor is
  \<open>j + 1\<close>; when there is no such position the cursor is left at the end of the tagged
  unit.
\<close>

theorem aligner_cursor_policy:
  assumes "w_foreign (store s ! r) \<noteq> Some ''1''"
    and "\<not> endswith (get_text (store s ! r)) ''-''"
    and "lower (get_text (store s ! r)) \<noteq> ''eeh''"
    and "tok s \<le> length doc"
  shows "let w = store s ! r; x = get_text w; c = skip_punct doc (tok s);
             s' = annotate_word nlp doc r s
         in tok s \<le> c \<and> c \<le> length doc \<and>
            (\<forall>k. tok s \<le> k \<and> k < c \<longrightarrow> punct_or_space (doc ! k)) \<and>
            (c < length doc \<longrightarrow> \<not> punct_or_space (doc ! c)) \<and>
            (c < length doc \<and> matches (doc ! c) x \<longrightarrow>
               store s' = (store s)
                 [r := w\<lparr>w_pos := Some (t_pos (doc ! c)),
                         w_lemma := Some (t_lemma (doc ! c)),
                         w_dep := Some (t_dep (doc ! c)),
                         w_head_text := Some (case t_head (doc ! c) of Some h \<Rightarrow> h | None \<Rightarrow> ''''),
                         w_morph := Some (PDict (t_morph (doc ! c)))\<rparr>] \<and>
               tok s' = c + 1) \<and>
            (\<not> (c < length doc \<and> matches (doc ! c) x) \<longrightarrow>
               (\<forall>j. c \<le> j \<and> search_hit doc x j \<and> (\<forall>k. c \<le> k \<and> k < j \<longrightarrow> \<not> search_hit doc x k) \<longrightarrow>
                    store s' = (store s)
                      [r := w\<lparr>w_pos := Some (t_pos (doc ! j)),
                              w_lemma := Some (t_lemma (doc ! j)),
                              w_dep := Some (t_dep (doc ! j)),
                              w_head_text := Some (case t_head (doc ! j) of Some h \<Rightarrow> h | None \<Rightarrow> ''''),
                              w_morph := Some (PDict (t_morph (doc ! j)))\<rparr>] \<and>
                    tok s' = j + 1) \<and>
               ((\<forall>k. c \<le> k \<and> k < length doc \<longrightarrow> \<not> search_hit doc x k) \<longrightarrow> tok s' = length doc))"
proof -
  define w where "w = store s ! r"
  define x where "x = get_text w"
  define c where "c = skip_punct doc (tok s)"
  define s' where "s' = annotate_word nlp doc r s"
  define fields where "fields = (\<lambda>t :: token. w\<lparr>w_pos := Some (t_pos t), w_lemma := Some (t_lemma t),
    w_dep := Some (t_dep t),
    w_head_text := Some (case t_head t of Some h \<Rightarrow> h | None \<Rightarrow> ''''),
    w_morph := Some (PDict (t_morph t))\<rparr>)"
  have fill: "fill_word_annotation w t = fields t" for t
    by (simp add: fill_word_annotation_def head_text_of_def fields_def)
  have s': "store s' = (store s)[r := fst (align_word nlp doc w (tok s))]"
           "tok s' = snd (align_word nlp doc w (tok s))"
    using assms(1-3) by (simp_all add: s'_def w_def annotate_word_plain)
  have c1: "tok s \<le> c" by (simp add: c_def skip_punct_ge)
  have c2: "c \<le> length doc" using assms(4) by (simp add: c_def skip_punct_le)
  have c3: "\<forall>k. tok s \<le> k \<and> k < c \<longrightarrow> punct_or_space (doc ! k)"
    by (auto simp: c_def intro: skip_punct_skipped)
  have c4: "c < length doc \<longrightarrow> \<not> punct_or_space (doc ! c)"
    by (auto simp: c_def dest: skip_punct_stops)
  have direct: "store s' = (store s)[r := fields (doc ! c)] \<and> tok s' = c + 1"
    if "c < length doc \<and> matches (doc ! c) x"
    using that s' by (simp add: align_word_def Let_def c_def x_def fill)
  have found: "store s' = (store s)[r := fields (doc ! j)] \<and> tok s' = j + 1"
    if no: "\<not> (c < length doc \<and> matches (doc ! c) x)"
      and j: "c \<le> j \<and> search_hit doc x j \<and> (\<forall>k. c \<le> k \<and> k < j \<longrightarrow> \<not> search_hit doc x k)" for j
  proof -
    from j have "forward_search doc x c = (j + 1, Some (doc ! j))"
      by (intro forward_search_found) auto
    with no s' show ?thesis
      by (auto simp: align_word_def Let_def c_def x_def fill)
  qed
  have exhausted: "tok s' = length doc"
    if no: "\<not> (c < length doc \<and> matches (doc ! c) x)"
      and none: "\<forall>k. c \<le> k \<and> k < length doc \<longrightarrow> \<not> search_hit doc x k"
  proof -
    from c2 none have "forward_search doc x c = (length doc, None)"
      by (rule forward_search_none)
    with no s' show ?thesis
      by (auto simp: align_word_def Let_def c_def x_def)
  qed
  from c1 c2 c3 c4 direct found exhausted
  have "tok s \<le> c \<and> c \<le> length doc \<and>
            (\<forall>k. tok s \<le> k \<and> k < c \<longrightarrow> punct_or_space (doc ! k)) \<and>
            (c < length doc \<longrightarrow> \<not> punct_or_space (doc ! c)) \<and>
            (c < length doc \<and> matches (doc ! c) x \<longrightarrow>
               store s' = (store s)[r := fields (doc ! c)] \<and> tok s' = c + 1) \<and>
            (\<not> (c < length doc \<and> matches (doc ! c) x) \<longrightarrow>
               (\<forall>j. c \<le> j \<and> search_hit doc x j \<and> (\<forall>k. c \<le> k \<and> k < j \<longrightarrow> \<not> search_hit doc x k) \<longrightarrow>
                    store s' = (store s)[r := fields (doc ! j)] \<and> tok s' = j + 1) \<and>
               ((\<forall>k. c \<le> k \<and> k < length doc \<longrightarrow> \<not> search_hit doc x k) \<longrightarrow> tok s' = length doc))"
    by blast
  then show ?thesis
    unfolding fields_def by (simp add: Let_def w_def x_def c_def s'_def)
qed

theorem aligner_cursor_policy_witness:
  "skip_punct sample_doc 0 = 1 \<and>
   \<not> matches (sample_doc ! 1) ''Llover.'' \<and>
   search_hit sample_doc ''Llover.'' 3 \<and>
   annotate_word sample_nlp sample_doc 0 \<lparr>store = [plain_word ''Llover.''], tok = 0, annotated = 0\<rparr> =
     \<lparr>store = [\<lparr>w_text = Some ''Llover.'', w_foreign = None, w_pos = Some ''VERB'',
                w_lemma = Some ''llover'', w_dep = Some ''dep'', w_head_text = Some ''llover'',
                w_morph = Some (PDict [(''VerbForm'', PStr ''Inf'')]), w_rest = []\<rparr>],
      tok = 4, annotated = 1\<rparr>"
proof -
  let ?s = "\<lparr>store = [plain_word ''Llover.''], tok = 0, annotated = 0\<rparr>"
  let ?s' = "annotate_word sample_nlp sample_doc 0 ?s"
  let ?w' = "\<lparr>w_text = Some ''Llover.'', w_foreign = None, w_pos = Some ''VERB'',
                w_lemma = Some ''llover'', w_dep = Some ''dep'', w_head_text = Some ''llover'',
                w_morph = Some (PDict [(''VerbForm'', PStr ''Inf'')]), w_rest = []\<rparr>"
  have h1: "w_foreign (store ?s ! 0) \<noteq> Some ''1''"
    by (simp add: plain_word_def)
  have h2: "\<not> endswith (get_text (store ?s ! 0)) ''-''"
    by (simp add: plain_word_def get_text_def endswith_def)
  have h3: "lower (get_text (store ?s ! 0)) \<noteq> ''eeh''"
    by (simp add: plain_word_def get_text_def lower_def)
  have h4: "tok ?s \<le> length sample_doc"
    by simp
  have c: "skip_punct sample_doc 0 = 1"
    by code_simp
  have m1: "\<not> matches (sample_doc ! 1) ''Llover.''"
    by code_simp
  have hit1: "\<not> search_hit sample_doc ''Llover.'' 1" and hit2: "\<not> search_hit sample_doc ''Llover.'' 2"
    and hit3: "search_hit sample_doc ''Llover.'' 3"
    by code_simp+
  have first: "\<forall>k. 1 \<le> k \<and> k < 3 \<longrightarrow> \<not> search_hit sample_doc ''Llover.'' k"
  proof (intro allI impI)
    fix k :: nat
    assume "1 \<le> k \<and> k < 3"
    then have "k = 1 \<or> k = 2" by arith
    with hit1 hit2 show "\<not> search_hit sample_doc ''Llover.'' k" by auto
  qed
  have x: "get_text (plain_word ''Llover.'') = ''Llover.''"
    by (simp add: get_text_def plain_word_def)
  have t3: "sample_doc ! 3 = sample_token ''llover'' False ''VERB'' ''llover'' [(''VerbForm'', PStr ''Inf'')]"
    by (simp add: sample_doc_def)
  from aligner_cursor_policy [OF h1 h2 h3 h4, of sample_nlp] c m1 x
  have search: "\<forall>j. 1 \<le> j \<and> search_hit sample_doc ''Llover.'' j \<and>
                   (\<forall>k. 1 \<le> k \<and> k < j \<longrightarrow> \<not> search_hit sample_doc ''Llover.'' k) \<longrightarrow>
                 store ?s' = (store ?s)
                   [0 := (plain_word ''Llover.'')
                      \<lparr>w_pos := Some (t_pos (sample_doc ! j)),
                       w_lemma := Some (t_lemma (sample_doc ! j)),
                       w_dep := Some (t_dep (sample_doc ! j)),
                       w_head_text := Some (case t_head (sample_doc ! j) of Some h \<Rightarrow> h | None \<Rightarrow> ''''),
                       w_morph := Some (PDict (t_morph (sample_doc ! j)))\<rparr>] \<and>
                 tok ?s' = j + 1"
    by (simp add: Let_def)
  from search [rule_format, of 3] hit3 first
  have "store ?s' = [?w'] \<and> tok ?s' = 4"
    by (simp add: t3 sample_token_def plain_word_def)
  moreover have "annotated ?s' = 1"
    using h1 h2 h3 by (simp add: annotate_word_plain)
  ultimately have "?s' = \<lparr>store = [?w'], tok = 4, annotated = 1\<rparr>"
    by (cases ?s') simp
  with c m1 hit3 show ?thesis by simp
qed


text \<open>
  Claim C6, as amended. A word that is no special case and for which neither the token
  at the cursor nor the forward search gives a match is annotated from the tagger's
  answer to the word's normalized text alone: with the fields of the first token of that
  answer, or, when the answer has no token, with an empty part of speech, the normalized
  text (not the original text) as lemma, and empty dependency, head and morphology. The
  step is a total function: it raises nothing in either case.
\<close>

theorem fallback_annotation:
  assumes "w_foreign (store s ! r) \<noteq> Some ''1''"
    and "\<not> endswith (get_text (store s ! r)) ''-''"
    and "lower (get_text (store s ! r)) \<noteq> ''eeh''"
    and "\<not> (skip_punct doc (tok s) < length doc \<and>
            matches (doc ! skip_punct doc (tok s)) (get_text (store s ! r)))"
    and "\<forall>k. skip_punct doc (tok s) \<le> k \<and> k < length doc \<longrightarrow>
             \<not> search_hit doc (get_text (store s ! r)) k"
  shows "let w = store s ! r; normalized = strip_punct (lower (get_text w))
         in store (annotate_word nlp doc r s) =
              (store s)[r := (case nlp normalized of
                                t # _ \<Rightarrow> fill_word_annotation w t
                              | [] \<Rightarrow> w\<lparr>w_pos := Some '''', w_lemma := Some normalized,
                                        w_dep := Some '''', w_head_text := Some '''',
                                        w_morph := Some (PDict [])\<rparr>)]"
proof -
  obtain td where fs: "forward_search doc (get_text (store s ! r)) (skip_punct doc (tok s)) = (td, None)"
    using forward_search_no_hit [OF assms(5)] by (metis prod.collapse)
  with assms(4) have "fst (align_word nlp doc (store s ! r) (tok s)) =
      update_annotation (store s ! r)
        (annotate_fallback nlp (strip_punct (lower (get_text (store s ! r)))))"
    by (auto simp: align_word_def Let_def)
  with assms(1-3) show ?thesis
    by (simp add: annotate_word_plain Let_def update_annotation_def annotate_fallback_def
        fill_word_annotation_def split: list.split)
qed

theorem fallback_annotation_witness:
  "sample_nlp (strip_punct (lower ''?'')) = [] \<and>
   store (annotate_word sample_nlp question_doc 0
            \<lparr>store = [plain_word ''?''], tok = 0, annotated = 0\<rparr>) =
     [(plain_word ''?'')\<lparr>w_pos := Some '''', w_lemma := Some '''', w_dep := Some '''',
                        w_head_text := Some '''', w_morph := Some (PDict [])\<rparr>]"
proof -
  let ?s = "\<lparr>store = [plain_word ''?''], tok = 0, annotated = 0\<rparr>"
  have x: "get_text (store ?s ! 0) = ''?''"
    by (simp add: get_text_def plain_word_def)
  have h1: "w_foreign (store ?s ! 0) \<noteq> Some ''1''"
    by (simp add: plain_word_def)
  have h2: "\<not> endswith (get_text (store ?s ! 0)) ''-''"
    unfolding x by (simp add: endswith_def)
  have h3: "lower (get_text (store ?s ! 0)) \<noteq> ''eeh''"
    unfolding x by (simp add: lower_def)
  have c: "skip_punct question_doc 0 = 1"
    by code_simp
  have h4: "\<not> (skip_punct question_doc (tok ?s) < length question_doc \<and>
               matches (question_doc ! skip_punct question_doc (tok ?s)) (get_text (store ?s ! 0)))"
    using c by (simp add: question_doc_def)
  have h5: "\<forall>k. skip_punct question_doc (tok ?s) \<le> k \<and> k < length question_doc \<longrightarrow>
                \<not> search_hit question_doc (get_text (store ?s ! 0)) k"
    using c by (simp add: question_doc_def)
  have norm: "strip_punct (lower ''?'') = ''''"
    by code_simp
  have empty: "sample_nlp '''' = []"
    by (simp add: sample_nlp_def)
  from fallback_annotation [OF h1 h2 h3 h4 h5, of sample_nlp] x norm empty
  show ?thesis
    by (simp add: Let_def)
qed

theorem fallback_lemma_counterexample:
  "sample_nlp (strip_punct (lower ''?'')) = [] \<and>
   w_text (plain_word ''?'') = Some ''?'' \<and>
   w_lemma (store (annotate_word sample_nlp question_doc 0
                     \<lparr>store = [plain_word ''?''], tok = 0, annotated = 0\<rparr>) ! 0) = Some '''' \<and>
   w_lemma (store (annotate_word sample_nlp question_doc 0
                     \<lparr>store = [plain_word ''?''], tok = 0, annotated = 0\<rparr>) ! 0)
     \<noteq> w_text (plain_word ''?'')"
  by code_simp


subsection \<open>Special cases\<close>

text \<open>
  Claim C10. The special cases are tested in a fixed order. A foreign-flagged word is
  only counted; otherwise a word whose text ends in \<open>-\<close> gets the self-correction marker
  as part of speech and nothing else; otherwise a word whose lower-cased text is \<open>eeh\<close>
  becomes an interjection with its own text as lemma and empty dependency, head and
  morphology. In all three cases the cursor into the tagged unit stays where it was,
  and a word \<open>eeh-\<close> that is not foreign-flagged is a self-correction.
\<close>

theorem special_cases_precedence:
  "let w = store s ! r; s' = annotate_word nlp doc r s in
     (w_foreign w = Some ''1'' \<longrightarrow> s' = s\<lparr>annotated := annotated s + 1\<rparr>) \<and>
     (w_foreign w \<noteq> Some ''1'' \<and> endswith (get_text w) ''-'' \<longrightarrow>
        s' = s\<lparr>store := (store s)[r := w\<lparr>w_pos := Some ''self-correction''\<rparr>],
               annotated := annotated s + 1\<rparr>) \<and>
     (w_foreign w \<noteq> Some ''1'' \<and> \<not> endswith (get_text w) ''-'' \<and> lower (get_text w) = ''eeh'' \<longrightarrow>
        s' = s\<lparr>store := (store s)[r := w\<lparr>w_pos := Some ''INTJ'', w_lemma := Some (get_text w),
                                          w_dep := Some '''', w_head_text := Some '''',
                                          w_morph := Some (PDict [])\<rparr>],
               annotated := annotated s + 1\<rparr>) \<and>
     (w_foreign w = Some ''1'' \<or> endswith (get_text w) ''-'' \<or> lower (get_text w) = ''eeh'' \<longrightarrow>
        tok s' = tok s) \<and>
     (w_foreign w \<noteq> Some ''1'' \<and> w_text w = Some ''eeh-'' \<longrightarrow>
        s' = s\<lparr>store := (store s)[r := w\<lparr>w_pos := Some ''self-correction''\<rparr>],
               annotated := annotated s + 1\<rparr>)"
proof -
  define w where "w = store s ! r"
  define s' where "s' = annotate_word nlp doc r s"
  have foreign: "s' = s\<lparr>annotated := annotated s + 1\<rparr>" if "w_foreign w = Some ''1''"
    using that by (simp add: s'_def w_def annotate_word_def Let_def)
  have dash: "s' = s\<lparr>store := (store s)[r := w\<lparr>w_pos := Some ''self-correction''\<rparr>],
                     annotated := annotated s + 1\<rparr>"
    if "w_foreign w \<noteq> Some ''1''" "endswith (get_text w) ''-''"
    using that by (simp add: s'_def w_def annotate_word_def Let_def)
  have eeh: "s' = s\<lparr>store := (store s)[r := w\<lparr>w_pos := Some ''INTJ'', w_lemma := Some (get_text w),
                                          w_dep := Some '''', w_head_text := Some '''',
                                          w_morph := Some (PDict [])\<rparr>],
                    annotated := annotated s + 1\<rparr>"
    if "w_foreign w \<noteq> Some ''1''" "\<not> endswith (get_text w) ''-''" "lower (get_text w) = ''eeh''"
    using that by (simp add: s'_def w_def annotate_word_def Let_def)
  have cursor: "tok s' = tok s"
    if "w_foreign w = Some ''1'' \<or> endswith (get_text w) ''-'' \<or> lower (get_text w) = ''eeh''"
    using that by (auto simp: s'_def w_def annotate_word_def Let_def)
  have "endswith (get_text w) ''-''" if "w_text w = Some ''eeh-''"
    using that by (simp add: get_text_def endswith_def)
  with dash have eeh_dash: "s' = s\<lparr>store := (store s)[r := w\<lparr>w_pos := Some ''self-correction''\<rparr>],
                     annotated := annotated s + 1\<rparr>"
    if "w_foreign w \<noteq> Some ''1''" "w_text w = Some ''eeh-''"
    using that by simp
  from foreign dash eeh cursor eeh_dash show ?thesis
    unfolding Let_def w_def [symmetric] s'_def [symmetric] by blast
qed

theorem special_cases_precedence_witness:
  "annotate_word sample_nlp sample_doc 0
      \<lparr>store = [(plain_word ''tu-'')\<lparr>w_foreign := Some ''1''\<rparr>], tok = 2, annotated = 5\<rparr> =
      \<lparr>store = [(plain_word ''tu-'')\<lparr>w_foreign := Some ''1''\<rparr>], tok = 2, annotated = 6\<rparr> \<and>
   annotate_word sample_nlp sample_doc 0 \<lparr>store = [plain_word ''eeh-''], tok = 2, annotated = 5\<rparr> =
      \<lparr>store = [(plain_word ''eeh-'')\<lparr>w_pos := Some ''self-correction''\<rparr>], tok = 2, annotated = 6\<rparr> \<and>
   annotate_word sample_nlp sample_doc 0 \<lparr>store = [plain_word ''Eeh''], tok = 2, annotated = 5\<rparr> =
      \<lparr>store = [(plain_word ''Eeh'')\<lparr>w_pos := Some ''INTJ'', w_lemma := Some ''Eeh'',
                  w_dep := Some '''', w_head_text := Some '''', w_morph := Some (PDict [])\<rparr>],
       tok = 2, annotated = 6\<rparr>"
proof -
  have l: "lower ''Eeh'' = ''eeh''"
    by (simp add: lower_def lower_char_def is_upper_def)
  from special_cases_precedence
         [of "\<lparr>store = [(plain_word ''tu-'')\<lparr>w_foreign := Some ''1''\<rparr>], tok = 2, annotated = 5\<rparr>" 0
             sample_nlp sample_doc]
  have a: "annotate_word sample_nlp sample_doc 0
      \<lparr>store = [(plain_word ''tu-'')\<lparr>w_foreign := Some ''1''\<rparr>], tok = 2, annotated = 5\<rparr> =
      \<lparr>store = [(plain_word ''tu-'')\<lparr>w_foreign := Some ''1''\<rparr>], tok = 2, annotated = 6\<rparr>"
    by (simp add: Let_def plain_word_def)
  from special_cases_precedence
         [of "\<lparr>store = [plain_word ''eeh-''], tok = 2, annotated = 5\<rparr>" 0 sample_nlp sample_doc]
  have b: "annotate_word sample_nlp sample_doc 0 \<lparr>store = [plain_word ''eeh-''], tok = 2, annotated = 5\<rparr> =
      \<lparr>store = [(plain_word ''eeh-'')\<lparr>w_pos := Some ''self-correction''\<rparr>], tok = 2, annotated = 6\<rparr>"
    by (simp add: Let_def plain_word_def)
  from special_cases_precedence
         [of "\<lparr>store = [plain_word ''Eeh''], tok = 2, annotated = 5\<rparr>" 0 sample_nlp sample_doc] l
  have c: "annotate_word sample_nlp sample_doc 0 \<lparr>store = [plain_word ''Eeh''], tok = 2, annotated = 5\<rparr> =
      \<lparr>store = [(plain_word ''Eeh'')\<lparr>w_pos := Some ''INTJ'', w_lemma := Some ''Eeh'',
                  w_dep := Some '''', w_head_text := Some '''', w_morph := Some (PDict [])\<rparr>],
       tok = 2, annotated = 6\<rparr>"
    by (simp add: Let_def plain_word_def get_text_def endswith_def)
  from a b c show ?thesis by simp
qed



subsection \<open>Skip policy\<close>

lemma process_files_other:
  "fname \<notin> set files \<Longrightarrow> fst (process_files nlp files disk n total_words) fname = disk fname"
proof (induction files arbitrary: disk n)
  case Nil
  then show ?case by simp
next
  case (Cons f files)
  then show ?case
    by (cases "annotate_file nlp (disk f) n")
       (auto simp: file_finished_message_def split: prod.splits)
qed

lemma process_files_first:
  assumes "annotate_file nlp (disk fname) n = Inr (data, n')" and "fname \<notin> set rest"
  shows "fst (process_files nlp (fname # rest) disk n total_words) fname = data"
  using assms process_files_other [of fname rest nlp "disk(fname := data)" n' total_words]
  by (simp add: file_finished_message_def)

lemma process_files_result:
  assumes "process_files nlp files disk n total_words = (disk', None)"
    and "distinct files" and "fname \<in> set files"
  shows "\<exists>m m'. annotate_file nlp (disk fname) m = Inr (disk' fname, m')"
  using assms
proof (induction files arbitrary: disk n)
  case Nil
  then show ?case by simp
next
  case (Cons f files)
  from Cons.prems(1) obtain data n' where
    run: "annotate_file nlp (disk f) n = Inr (data, n')"
    by (cases "annotate_file nlp (disk f) n") auto
  with Cons.prems(1) have nonzero: "total_words \<noteq> 0"
    and rest: "process_files nlp files (disk(f := data)) n' total_words = (disk', None)"
    by (auto simp: file_finished_message_def split: if_splits)
  show ?case
  proof (cases "fname = f")
    case True
    with Cons.prems(2) have "f \<notin> set files" by simp
    from process_files_other [OF this, of nlp "disk(f := data)" n' total_words] rest
    have "disk' f = data" by simp
    with run True show ?thesis by blast
  next
    case False
    with Cons.prems have "distinct files" "fname \<in> set files" by simp_all
    from Cons.IH [OF rest this] False show ?thesis by simp
  qed
qed

lemma filtered_files_skips:
  "already_annotated (segments (disk fname)) \<Longrightarrow> fname \<notin> set (filtered_files False disk files)"
  by (simp add: filtered_files_def)

lemma filtered_files_overwrite: "filtered_files True disk files = files"
  by (simp add: filtered_files_def)

lemma clear_annotations_fields:
  "seg \<in> set (segments (clear_annotations data)) \<Longrightarrow> w \<in> set (words seg) \<Longrightarrow>
   w_pos w = None \<and> w_lemma w = None \<and> w_dep w = None \<and> w_head_text w = None \<and> w_morph w = None"
  by (auto simp: clear_annotations_def clear_word_def)

lemma main_skips:
  assumes "already_annotated (segments (disk fname))"
  shows "fst (main nlp all_files ch False disk) fname = disk fname"
proof -
  from assms have "\<And>files. fname \<notin> set (filtered_files False disk files)"
    by (rule filtered_files_skips)
  then show ?thesis
    by (cases ch) (simp_all add: main_def Let_def process_files_other)
qed

lemma main_overwrites:
  assumes "distinct all_files" and "snd (main nlp all_files ch True disk) = None"
    and "fname \<in> set (chosen_files ch all_files)"
  shows "\<exists>n n'. annotate_cleared nlp (clear_annotations (disk fname)) n =
                  Inr (fst (main nlp all_files ch True disk) fname, n')"
proof -
  define files where "files = chosen_files ch all_files"
  define total_words where "total_words = total_words_to_annotate disk files"
  from assms(3) have valid: "ch \<noteq> Invalid"
    by (auto simp: chosen_files_def)
  then have m: "main nlp all_files ch True disk = process_files nlp files disk 0 total_words"
    by (cases ch; cases "chosen_files ch all_files")
       (simp_all add: main_def Let_def filtered_files_overwrite files_def total_words_def)
  from assms(1) have d: "distinct files"
    by (cases ch) (simp_all add: files_def chosen_files_def)
  from assms(2) m have
    "process_files nlp files disk 0 total_words = (fst (main nlp all_files ch True disk), None)"
    by (metis prod.collapse)
  from process_files_result [OF this d] assms(3)
  show ?thesis by (simp add: files_def annotate_file_def)
qed

lemma main_overwrites_first:
  assumes "fname \<notin> set rest" and "annotate_file nlp (disk fname) 0 = Inr (data, n')"
  shows "fst (main nlp (fname # rest) All True disk) fname = data"
  using process_files_first [of nlp disk fname 0 data n' rest] assms
  by (simp add: main_def Let_def filtered_files_overwrite chosen_files_def)

text \<open>A run whose files hold no word ends with the division by zero of
  \<^verbatim>\<open>file_finished_message\<close>, after the first file has been written.\<close>

lemma main_wordless_file:
  "snd (main sample_nlp [''a.json'', ''b.json''] All True (\<lambda>f. \<lparr>segments = []\<rparr>)) =
     Some ZeroDivisionError \<and>
   fst (main sample_nlp [''a.json'', ''b.json''] All True (\<lambda>f. \<lparr>segments = []\<rparr>)) ''a.json'' =
     \<lparr>segments = []\<rparr>"
  by (simp add: main_def chosen_files_def filtered_files_def total_words_to_annotate_def
        word_count_def file_finished_message_def annotate_file_def annotate_cleared_def
        clear_annotations_def post_process_compound_tenses_def
        post_process_compound_futures_def Let_def)

lemma overwrite_run: "annotate_file sample_nlp annotated_data 0 = Inr (reannotated_data, 2)"
  by code_simp

text \<open>
  Claim C7. Without overwrite permission, a transcript in which some word of some
  segment carries a part of speech or a morphology entry is not among the files to
  process: whatever else the run does, the file keeps its content, so a second run
  leaves the output of the first as it is. With overwrite requested no file is
  skipped: the first file of the run holds afterwards what \<^verbatim>\<open>annotate_file\<close> makes of it,
  and after a run that no exception ended so does every chosen file, which is the
  result of annotating the transcript with the four core fields and the morphology
  removed from every word.
\<close>

theorem skip_already_annotated:
  "(already_annotated (segments (disk fname)) \<longrightarrow>
      fst (main nlp all_files ch False disk) fname = disk fname) \<and>
   (fname \<notin> set rest \<longrightarrow>
      (\<forall>data' n'. annotate_file nlp (disk fname) 0 = Inr (data', n') \<longrightarrow>
         fst (main nlp (fname # rest) All True disk) fname = data')) \<and>
   (distinct all_files \<and> snd (main nlp all_files ch True disk) = None \<and>
    fname \<in> set (chosen_files ch all_files) \<longrightarrow>
      (\<exists>n n'. annotate_cleared nlp (clear_annotations (disk fname)) n =
                Inr (fst (main nlp all_files ch True disk) fname, n'))) \<and>
   filtered_files True disk all_files = all_files \<and>
   annotate_file nlp data n = annotate_cleared nlp (clear_annotations data) n \<and>
   (\<forall>seg \<in> set (segments (clear_annotations data)). \<forall>w \<in> set (words seg).
      w_pos w = None \<and> w_lemma w = None \<and> w_dep w = None \<and> w_head_text w = None \<and>
      w_morph w = None)"
proof (intro conjI impI ballI allI)
  assume "already_annotated (segments (disk fname))"
  then show "fst (main nlp all_files ch False disk) fname = disk fname"
    by (rule main_skips)
next
  fix data' n'
  assume "fname \<notin> set rest" "annotate_file nlp (disk fname) 0 = Inr (data', n')"
  then show "fst (main nlp (fname # rest) All True disk) fname = data'"
    by (rule main_overwrites_first)
next
  assume "distinct all_files \<and> snd (main nlp all_files ch True disk) = None \<and>
    fname \<in> set (chosen_files ch all_files)"
  then show "\<exists>n n'. annotate_cleared nlp (clear_annotations (disk fname)) n =
                Inr (fst (main nlp all_files ch True disk) fname, n')"
    using main_overwrites by blast
next
  show "filtered_files True disk all_files = all_files"
    by (rule filtered_files_overwrite)
next
  show "annotate_file nlp data n = annotate_cleared nlp (clear_annotations data) n"
    by (simp add: annotate_file_def)
next
  fix seg w
  assume "seg \<in> set (segments (clear_annotations data))" "w \<in> set (words seg)"
  then have f: "w_pos w = None \<and> w_lemma w = None \<and> w_dep w = None \<and> w_head_text w = None \<and>
    w_morph w = None"
    by (rule clear_annotations_fields)
  from f show "w_pos w = None" by simp
  from f show "w_lemma w = None" by simp
  from f show "w_dep w = None" by simp
  from f show "w_head_text w = None" by simp
  from f show "w_morph w = None" by simp
qed

theorem skip_already_annotated_witness:
  "already_annotated (segments annotated_data) \<and>
   fst (main sample_nlp [''a.json'', ''b.json''] All False (\<lambda>f. annotated_data)) ''a.json''
     = annotated_data \<and>
   annotate_file sample_nlp annotated_data 0 = Inr (reannotated_data, 2) \<and>
   fst (main sample_nlp [''a.json'', ''b.json''] All True (\<lambda>f. annotated_data)) ''a.json''
     = reannotated_data \<and>
   reannotated_data \<noteq> annotated_data \<and>
   segments (clear_annotations annotated_data) = [\<lparr>words = [plain_word ''Va'', plain_word ''a'']\<rparr>]"
proof -
  have a: "already_annotated (segments annotated_data)"
    by (simp add: already_annotated_def annotated_data_def plain_word_def)
  have c: "segments (clear_annotations annotated_data) = [\<lparr>words = [plain_word ''Va'', plain_word ''a'']\<rparr>]"
    by (simp add: clear_annotations_def annotated_data_def plain_word_def clear_word_def)
  have differ: "reannotated_data \<noteq> annotated_data"
    by (simp add: reannotated_data_def annotated_data_def plain_word_def)
  have other: "''a.json'' \<notin> set [''b.json'']"
    by simp
  note inst = skip_already_annotated
         [of "\<lambda>f. annotated_data" "''a.json''" sample_nlp "[''a.json'', ''b.json'']" All
             "[''b.json'']"]
  from inst a
  have skipped: "fst (main sample_nlp [''a.json'', ''b.json''] All False (\<lambda>f. annotated_data))
                   ''a.json'' = annotated_data"
    by blast
  from inst other overwrite_run
  have written: "fst (main sample_nlp [''a.json'', ''b.json''] All True (\<lambda>f. annotated_data))
                   ''a.json'' = reannotated_data"
    by blast
  from a skipped overwrite_run written differ c show ?thesis by simp
qed

subsection \<open>Dictionaries\<close>

lemma map_of_dict_set: "map_of (dict_set d k v) k' = (if k' = k then Some v else map_of d k')"
  by (induction d k v rule: dict_set.induct) auto

lemma keys_dict_set: "fst ` set (dict_set d k v) = insert k (fst ` set d)"
  by (induction d k v rule: dict_set.induct) auto

lemma dict_get_dict_set: "k' \<noteq> k \<Longrightarrow> dict_get (dict_set d k v) k' dflt = dict_get d k' dflt"
  by (simp add: dict_get_def map_of_dict_set)

subsection \<open>Well-formed words\<close>

lemma py_in_iterable: "iterable v \<Longrightarrow> \<exists>b. py_in x v = Inr b"
  by (cases v) (simp_all add: iterable_def)

lemma dict_get_iterable:
  "list_all (\<lambda>kv. iterable (snd kv)) d \<Longrightarrow> iterable (dict_get d k (PList []))"
  by (auto simp: dict_get_def iterable_def list_all_iff split: option.splits dest!: map_of_SomeD)

lemma dict_set_iterable:
  "list_all (\<lambda>kv. iterable (snd kv)) d \<Longrightarrow> iterable v \<Longrightarrow>
   list_all (\<lambda>kv. iterable (snd kv)) (dict_set d k v)"
  by (induction d k v rule: dict_set.induct) auto

lemma well_formed_morph_cases:
  assumes "well_formed_morph w"
  obtains d where "get_morph w = PDict d" "list_all (\<lambda>kv. iterable (snd kv)) d"
    "w_morph w = None \<or> w_morph w = Some (PDict d)"
  using assms
  by (cases "w_morph w")
     (auto simp: well_formed_morph_def get_morph_def split: pyval.splits)

lemma set_past_tense_type_wf:
  assumes "well_formed_word w"
  shows "well_formed_word (set_past_tense_type w l)"
proof -
  from assms have "well_formed_morph w" by (simp add: well_formed_word_def)
  then obtain d where "list_all (\<lambda>kv. iterable (snd kv)) d"
    "w_morph w = None \<or> w_morph w = Some (PDict d)"
    by (rule well_formed_morph_cases)
  moreover have "iterable (PStr l)" by (simp add: iterable_def)
  ultimately have "well_formed_morph (set_past_tense_type w l)"
    by (auto simp: set_past_tense_type_def well_formed_morph_def dict_set_iterable)
  with assms show ?thesis
    by (simp add: well_formed_word_def set_past_tense_type_def Let_def)
qed

lemma add_future_type_wf:
  assumes "well_formed_word w"
  shows "well_formed_word (add_future_type w l)"
proof -
  from assms have "well_formed_morph w" by (simp add: well_formed_word_def)
  then obtain d where "list_all (\<lambda>kv. iterable (snd kv)) d"
    "w_morph w = None \<or> w_morph w = Some (PDict d)"
    by (rule well_formed_morph_cases)
  moreover have "iterable (PStr l)" by (simp add: iterable_def)
  ultimately have "well_formed_morph (add_future_type w l)"
    by (auto simp: add_future_type_def morph_dict_def well_formed_morph_def dict_set_iterable)
  with assms show ?thesis
    by (simp add: well_formed_word_def add_future_type_def)
qed

lemma for_segments_total:
  "\<forall>seg\<in>set segs. \<exists>seg'. f seg = Inr seg' \<Longrightarrow> \<exists>segs'. for_segments f segs = Inr segs'"
  by (induction segs) auto

subsection \<open>Analytic future\<close>

lemma future_label_sound:
  "future_label w1 w2 w3 = Inr r \<Longrightarrow> analytic_future_label w1 w2 w3 = r"
  unfolding future_label_def analytic_future_label_def has_feature_def feature_contains_def Let_def
  by (cases "get_morph w1"; cases "get_morph w3")
     (auto simp: dict_get_def split: if_splits sum.splits option.splits pyval.splits)

lemma future_label_morph3:
  "future_label w1 w2 w3 = Inr (Some l) \<Longrightarrow> \<exists>d. w_morph w3 = Some (PDict d)"
  unfolding future_label_def Let_def
  by (cases "w_morph w3")
     (auto simp: get_morph_def dict_get_def split: if_splits sum.splits option.splits pyval.splits)

lemma future_label_marked:
  assumes "future_marked w1 w1'" and "future_marked w2 w2'"
  shows "future_label w1' w2' w3 = future_label w1 w2 w3"
proof -
  have pos1: "w_pos w1' = w_pos w1" and pos2: "w_pos w2' = w_pos w2"
    and txt2: "get_text w2' = get_text w2"
    using assms by (auto simp: future_marked_def add_future_type_def get_text_def)
  have in1: "py_in ''Tense'' (get_morph w1') = py_in ''Tense'' (get_morph w1)"
    using assms(1) unfolding future_marked_def
    by (elim disjE exE conjE)
       (simp_all add: add_future_type_def get_morph_def morph_dict_def keys_dict_set)
  have get1: "py_getitem (get_morph w1') ''Tense'' = py_getitem (get_morph w1) ''Tense''"
    using assms(1) unfolding future_marked_def
    by (elim disjE exE conjE)
       (simp_all add: add_future_type_def get_morph_def morph_dict_def map_of_dict_set)
  show ?thesis
    unfolding future_label_def Let_def pos1 pos2 txt2 in1 get1 ..
qed

lemma analytic_future_label_morph3:
  "analytic_future_label w1 w2 w3 = Some l \<Longrightarrow> \<exists>d. w_morph w3 = Some (PDict d)"
  unfolding analytic_future_label_def feature_contains_def
  by (cases "w_morph w3")
     (auto simp: get_morph_def dict_get_def split: if_splits pyval.splits)

lemma detector_result_marked: "future_marked (ws ! j) (detector_result ws j)"
  unfolding detector_result_def future_marked_def
  by (auto split: option.splits dest: analytic_future_label_morph3)

lemma write_future_type_dict:
  "w_morph w3 = Some (PDict d) \<Longrightarrow> write_future_type w3 l = Inr (add_future_type w3 l)"
  by (simp add: write_future_type_def add_future_type_def morph_dict_def)

lemma futures_loop_spec:
  assumes "futures_loop st [i..<m] = Inr st'"
    and "i \<le> m" and "m + 2 \<le> length orig" and "length st = length orig"
    and "\<forall>j<length orig. st ! j = (if j < i + 2 then detector_result orig j else orig ! j)"
  shows "length st' = length orig \<and>
         (\<forall>j<length orig. st' ! j = (if j < m + 2 then detector_result orig j else orig ! j))"
  using assms
proof (induction "m - i" arbitrary: i st)
  case 0
  then have "i = m" by simp
  with "0.prems" show ?case by simp
next
  case (Suc n)
  then have lt: "i < m" by simp
  then have upt: "[i..<m] = i # [Suc i..<m]" by (simp add: upt_conv_Cons)
  from lt Suc.prems(3) have i2: "i + 2 < length orig" by simp
  from Suc.prems(5) i2 have w1: "st ! i = detector_result orig i"
    and w2: "st ! (i + 1) = detector_result orig (i + 1)"
    and w3: "st ! (i + 2) = orig ! (i + 2)"
    by simp_all
  have lab: "future_label (st ! i) (st ! (i + 1)) (st ! (i + 2)) =
             future_label (orig ! i) (orig ! (i + 1)) (orig ! (i + 2))"
    unfolding w1 w2 w3 by (rule future_label_marked) (rule detector_result_marked)+
  from Suc.prems(1) upt obtain r where
    r: "future_label (orig ! i) (orig ! (i + 1)) (orig ! (i + 2)) = Inr r"
    unfolding lab [symmetric] by (auto split: sum.splits)
  then have spec: "analytic_future_label (orig ! i) (orig ! (i + 1)) (orig ! (i + 2)) = r"
    by (rule future_label_sound)
  have dr: "detector_result orig (i + 2) =
            (case r of Some l \<Rightarrow> add_future_type (orig ! (i + 2)) l | None \<Rightarrow> orig ! (i + 2))"
    using spec by (cases r) (simp_all add: detector_result_def)
  define st1 where "st1 = st[i + 2 := detector_result orig (i + 2)]"
  have next_loop: "futures_loop st1 [Suc i..<m] = Inr st'"
  proof (cases r)
    case None
    with dr w3 have "detector_result orig (i + 2) = st ! (i + 2)" by simp
    then have "st1 = st" unfolding st1_def by simp
    with Suc.prems(1) upt r lab None show ?thesis by simp
  next
    case (Some l)
    with spec obtain d where "w_morph (orig ! (i + 2)) = Some (PDict d)"
      by (auto dest: analytic_future_label_morph3)
    then have "write_future_type (st ! (i + 2)) l = Inr (add_future_type (orig ! (i + 2)) l)"
      unfolding w3 by (rule write_future_type_dict)
    with Suc.prems(1) upt r lab Some dr show ?thesis by (simp add: st1_def)
  qed
  have inv: "\<forall>j<length orig. st1 ! j = (if j < Suc i + 2 then detector_result orig j else orig ! j)"
  proof (intro allI impI)
    fix j assume j: "j < length orig"
    show "st1 ! j = (if j < Suc i + 2 then detector_result orig j else orig ! j)"
    proof (cases "j = i + 2")
      case True
      with j Suc.prems(4) show ?thesis by (simp add: st1_def)
    next
      case False
      with j Suc.prems(5) show ?thesis by (auto simp: st1_def)
    qed
  qed
  from Suc.hyps(2) have n: "n = m - Suc i" by simp
  from lt have le: "Suc i \<le> m" by simp
  have len: "length st1 = length orig" using Suc.prems(4) by (simp add: st1_def)
  from Suc.hyps(1) [OF n next_loop le Suc.prems(3) len inv] show ?case .
qed

lemma futures_segment_spec:
  assumes "futures_segment seg = Inr seg'"
  shows "length (words seg') = length (words seg) \<and>
         (\<forall>j<length (words seg). words seg' ! j = detector_result (words seg) j)"
proof -
  from assms obtain st' where
    loop: "futures_loop (words seg) [0..<length (words seg) - 2] = Inr st'"
    and seg': "seg' = seg\<lparr>words := st'\<rparr>"
    by (auto simp: futures_segment_def split: sum.splits)
  show ?thesis
  proof (cases "2 \<le> length (words seg)")
    case True
    then have m: "length (words seg) - 2 + 2 \<le> length (words seg)" by simp
    from futures_loop_spec [OF loop _ m] True seg'
    show ?thesis by (auto simp: detector_result_def)
  next
    case False
    then have "length (words seg) - 2 = 0" by simp
    with loop have "st' = words seg" by simp
    with False seg' show ?thesis by (auto simp: detector_result_def)
  qed
qed

lemma for_segments_nth:
  "for_segments f segs = Inr segs' \<Longrightarrow>
   length segs' = length segs \<and> (\<forall>k<length segs. f (segs ! k) = Inr (segs' ! k))"
proof (induction segs arbitrary: segs')
  case Nil
  then show ?case by simp
next
  case (Cons seg segs)
  from Cons.prems obtain s1 rest where
    s1: "f seg = Inr s1" and rest: "for_segments f segs = Inr rest" and eq: "segs' = s1 # rest"
    by (auto split: sum.splits)
  from Cons.IH [OF rest] s1 eq show ?case
    by (auto simp: nth_Cons split: nat.splits)
qed

lemma future_run: "post_process_compound_futures future_data = Inr future_result"
  by code_simp

lemma futures_pass_spec:
  assumes "post_process_compound_futures data = Inr data'"
  shows "length (segments data') = length (segments data) \<and>
         (\<forall>k<length (segments data).
            length (words (segments data' ! k)) = length (words (segments data ! k)) \<and>
            (\<forall>j<length (words (segments data ! k)).
               words (segments data' ! k) ! j = detector_result (words (segments data ! k)) j))"
proof -
  from assms obtain segs where
    fs: "for_segments futures_segment (segments data) = Inr segs"
    and d: "data' = data\<lparr>segments := segs\<rparr>"
    by (auto simp: post_process_compound_futures_def split: sum.splits)
  from for_segments_nth [OF fs] d
  have len: "length (segments data') = length (segments data)"
    and each: "\<forall>k<length (segments data).
                 futures_segment (segments data ! k) = Inr (segments data' ! k)"
    by simp_all
  show ?thesis
  proof (intro conjI allI impI)
    show "length (segments data') = length (segments data)" by (rule len)
  next
    fix k assume "k < length (segments data)"
    with each have "futures_segment (segments data ! k) = Inr (segments data' ! k)" by simp
    from futures_segment_spec [OF this]
    show "length (words (segments data' ! k)) = length (words (segments data ! k))"
      by simp
  next
    fix k j assume "k < length (segments data)" "j < length (words (segments data ! k))"
    with each have "futures_segment (segments data ! k) = Inr (segments data' ! k)" by simp
    from futures_segment_spec [OF this] \<open>j < length (words (segments data ! k))\<close>
    show "words (segments data' ! k) ! j = detector_result (words (segments data ! k)) j"
      by simp
  qed
qed

lemma future_label_total:
  assumes "well_formed_morph w1" and "well_formed_morph w3"
  shows "\<exists>r. future_label w1 w2 w3 = Inr r"
proof -
  from assms(1) obtain d1 where m1: "get_morph w1 = PDict d1"
    and it1: "list_all (\<lambda>kv. iterable (snd kv)) d1"
    by (rule well_formed_morph_cases)
  from assms(2) obtain d3 where m3: "get_morph w3 = PDict d3"
    and it3: "list_all (\<lambda>kv. iterable (snd kv)) d3"
    by (rule well_formed_morph_cases)
  from py_in_iterable [OF dict_get_iterable [OF it3]] obtain b3 where
    b3: "py_in ''Inf'' (dict_get d3 ''VerbForm'' (PList [])) = Inr b3" by blast
  show ?thesis
  proof (cases "map_of d1 ''Tense''")
    case None
    then have "''Tense'' \<notin> fst ` set d1" by (simp add: map_of_eq_None_iff)
    with m1 show ?thesis by (simp add: future_label_def Let_def)
  next
    case (Some v)
    then have "(''Tense'', v) \<in> set d1" by (rule map_of_SomeD)
    with it1 have "iterable v" by (auto simp: list_all_iff)
    from py_in_iterable [OF this] obtain p i where
      "py_in ''Pres'' v = Inr p" "py_in ''Imp'' v = Inr i" by metis
    with m1 m3 b3 Some show ?thesis by (simp add: future_label_def Let_def)
  qed
qed

lemma write_future_type_total:
  assumes "well_formed_morph w3"
  shows "\<exists>w. write_future_type w3 l = Inr w \<and> well_formed_morph w"
proof -
  from assms obtain d where it: "list_all (\<lambda>kv. iterable (snd kv)) d"
    and m: "w_morph w3 = None \<or> w_morph w3 = Some (PDict d)"
    by (rule well_formed_morph_cases)
  have s: "iterable (PStr l)" by (simp add: iterable_def)
  from m show ?thesis
  proof
    assume "w_morph w3 = None"
    with s show ?thesis by (simp add: write_future_type_def well_formed_morph_def)
  next
    assume "w_morph w3 = Some (PDict d)"
    with s it show ?thesis
      by (simp add: write_future_type_def well_formed_morph_def dict_set_iterable)
  qed
qed

lemma futures_loop_total:
  assumes "\<forall>j<length st. well_formed_morph (st ! j)" and "\<forall>i\<in>set is. i + 2 < length st"
  shows "\<exists>st'. futures_loop st is = Inr st'"
  using assms
proof (induction "is" arbitrary: st)
  case Nil
  then show ?case by simp
next
  case (Cons i "is")
  then have i: "i + 2 < length st" by simp
  with Cons.prems(1) have wf: "well_formed_morph (st ! i)" "well_formed_morph (st ! (i + 2))"
    by simp_all
  from future_label_total [OF wf] obtain r where
    r: "future_label (st ! i) (st ! (i + 1)) (st ! (i + 2)) = Inr r" by blast
  show ?case
  proof (cases r)
    case None
    from Cons.IH [OF Cons.prems(1)] Cons.prems(2) obtain st' where
      "futures_loop st is = Inr st'" by auto
    with r None show ?thesis by simp
  next
    case (Some l)
    from write_future_type_total [OF wf(2)] obtain w where
      w: "write_future_type (st ! (i + 2)) l = Inr w" and wfw: "well_formed_morph w" by blast
    have "\<forall>j<length (st[i + 2 := w]). well_formed_morph (st[i + 2 := w] ! j)"
      using Cons.prems(1) wfw i by (auto simp: nth_list_update)
    moreover have "\<forall>k\<in>set is. k + 2 < length (st[i + 2 := w])"
      using Cons.prems(2) by simp
    ultimately obtain st' where "futures_loop (st[i + 2 := w]) is = Inr st'"
      using Cons.IH by blast
    with r Some w show ?thesis by simp
  qed
qed

lemma futures_segment_total:
  assumes "\<forall>w\<in>set (words seg). well_formed_morph w"
  shows "\<exists>seg'. futures_segment seg = Inr seg'"
proof -
  from assms have "\<forall>j<length (words seg). well_formed_morph (words seg ! j)" by simp
  moreover have "\<forall>i\<in>set [0..<length (words seg) - 2]. i + 2 < length (words seg)"
    by auto
  ultimately obtain st' where
    "futures_loop (words seg) [0..<length (words seg) - 2] = Inr st'"
    using futures_loop_total by blast
  then show ?thesis by (simp add: futures_segment_def)
qed

lemma futures_pass_total:
  assumes "\<forall>seg\<in>set (segments data). \<forall>w\<in>set (words seg). well_formed_morph w"
  shows "\<exists>data'. post_process_compound_futures data = Inr data'"
proof -
  from assms have "\<forall>seg\<in>set (segments data). \<exists>seg'. futures_segment seg = Inr seg'"
    by (simp add: futures_segment_total)
  from for_segments_total [OF this] show ?thesis
    by (auto simp: post_process_compound_futures_def)
qed

text \<open>
  Claim C4. On a transcript whose morphology entries are well-formed the detector
  returns. Whenever it returns, every segment keeps its length and the word at
  each position \<open>j\<close> is the detector's result for the window of the same segment that
  ends at \<open>j\<close>: a \<open>Future_Type\<close> entry is written into the third word of a window if and
  only if the first has part of speech AUX and a Tense feature, the second has the
  lower-cased text \<open>a\<close> and part of speech ADP, the third has part of speech VERB with
  \<open>Inf\<close> among its VerbForm values, and the Tense values of the first contain \<open>Pres\<close>
  (label \<open>analyticalFuture\<close>) or else \<open>Imp\<close> (label \<open>analyticalFuture_past\<close>). The first two
  words of a segment end no window and stay as they are, so no window spans a segment
  boundary.
\<close>

theorem analytic_future_detector:
  "((\<forall>seg\<in>set (segments data). \<forall>w\<in>set (words seg). well_formed_morph w) \<longrightarrow>
      (\<exists>data'. post_process_compound_futures data = Inr data')) \<and>
   (\<forall>data'. post_process_compound_futures data = Inr data' \<longrightarrow>
      length (segments data') = length (segments data) \<and>
      (\<forall>k<length (segments data).
         length (words (segments data' ! k)) = length (words (segments data ! k)) \<and>
         (\<forall>j<length (words (segments data ! k)).
            words (segments data' ! k) ! j = detector_result (words (segments data ! k)) j)))"
proof (intro conjI impI allI)
  assume "\<forall>seg\<in>set (segments data). \<forall>w\<in>set (words seg). well_formed_morph w"
  then show "\<exists>data'. post_process_compound_futures data = Inr data'"
    by (rule futures_pass_total)
next
  fix data' assume run: "post_process_compound_futures data = Inr data'"
  from futures_pass_spec [OF run]
  show "length (segments data') = length (segments data)" by simp
  fix k assume k: "k < length (segments data)"
  from futures_pass_spec [OF run] k
  show "length (words (segments data' ! k)) = length (words (segments data ! k))" by simp
  fix j assume "j < length (words (segments data ! k))"
  with futures_pass_spec [OF run] k
  show "words (segments data' ! k) ! j = detector_result (words (segments data ! k)) j" by simp
qed

theorem analytic_future_detector_witness:
  "list_all (\<lambda>seg. list_all well_formed_morph (words seg)) (segments future_data) \<and>
   post_process_compound_futures future_data = Inr future_result \<and>
   words (segments future_result ! 0) ! 2 = add_future_type llover_word ''analyticalFuture'' \<and>
   words (segments future_result ! 1) ! 2 = add_future_type llover_word ''analyticalFuture_past'' \<and>
   words (segments future_result ! 2) ! 2 = llover_word \<and>
   words (segments future_result ! 4) ! 0 = llover_word"
proof -
  note inst = analytic_future_detector [of future_data]
  have wf: "list_all (\<lambda>seg. list_all well_formed_morph (words seg)) (segments future_data)"
    by (simp add: future_data_def a_word_def llover_word_def annotated_word_def plain_word_def
        well_formed_morph_def iterable_def)
  then have "\<forall>seg\<in>set (segments future_data). \<forall>w\<in>set (words seg). well_formed_morph w"
    by (simp add: list_all_iff)
  with inst have "\<exists>data'. post_process_compound_futures future_data = Inr data'"
    by blast
  from inst future_run
  have spec: "\<forall>k<length (segments future_data).
         \<forall>j<length (words (segments future_data ! k)).
            words (segments future_result ! k) ! j =
              detector_result (words (segments future_data ! k)) j"
    by blast
  have l: "length (segments future_data) = 5" "length (words (segments future_data ! 0)) = 3"
          "length (words (segments future_data ! 1)) = 3"
          "length (words (segments future_data ! 2)) = 3"
          "length (words (segments future_data ! 4)) = 1"
    by (simp_all add: future_data_def)
  have d: "detector_result (words (segments future_data ! 0)) 2 =
             add_future_type llover_word ''analyticalFuture''"
          "detector_result (words (segments future_data ! 1)) 2 =
             add_future_type llover_word ''analyticalFuture_past''"
          "detector_result (words (segments future_data ! 2)) 2 = llover_word"
          "detector_result (words (segments future_data ! 4)) 0 = llover_word"
    by code_simp+
  from spec l d future_run wf
  show ?thesis by simp
qed

subsection \<open>Past tense forms\<close>

lemma sibling_loop_spec:
  "sibling_loop st p ptl js = Inr (found, st') \<Longrightarrow>
   found = list_ex (aux_sibling st p ptl) js \<and>
   st' = (if found then st[p := set_past_tense_type (st ! p) ''PerfectoCompuesto''] else st)"
proof (induction js)
  case Nil
  then show ?case by simp
next
  case (Cons j js)
  show ?case
  proof (cases "j = p")
    case True
    with Cons show ?thesis by (simp add: aux_sibling_def)
  next
    case False
    show ?thesis
    proof (cases "w_pos (st ! j) = Some ''AUX''")
      case aux: True
      with Cons.prems False obtain m where m: "get_morph (st ! j) = PDict m"
        by (cases "get_morph (st ! j)") auto
      with Cons.prems False aux obtain pres where
        pres: "py_in ''Pres'' (dict_get m ''Tense'' (PList [])) = Inr pres"
        by (cases "py_in ''Pres'' (dict_get m ''Tense'' (PList []))") auto
      have fc: "feature_contains (st ! j) ''Tense'' ''Pres'' = pres"
        using m pres by (simp add: feature_contains_def)
      show ?thesis
      proof (cases "pres \<and> lower (get_head_text (st ! j)) = ptl")
        case True
        with Cons.prems False aux m pres fc show ?thesis
          by (auto simp: aux_sibling_def)
      next
        case no: False
        with Cons.prems False aux m pres
        have "sibling_loop st p ptl js = Inr (found, st')" by auto
        from Cons.IH [OF this] no False aux fc show ?thesis
          by (auto simp: aux_sibling_def)
      qed
    next
      case noaux: False
      with Cons.prems False have "sibling_loop st p ptl js = Inr (found, st')" by simp
      from Cons.IH [OF this] noaux show ?thesis
        by (auto simp: aux_sibling_def)
    qed
  qed
qed

lemma past_tense_label_scan:
  "past_tense_label st p =
     (let w = st ! p
      in if feature_contains w ''VerbForm'' ''Fin'' then ''PerfectoSimple''
         else if feature_contains w ''VerbForm'' ''Part''
         then (let aux = lower (get_head_text w)
               in if aux \<in> set PRESENT_FORMS then ''PerfectoCompuesto''
                  else if aux \<in> set IMPERFECT_FORMS then ''Pluscuamperfecto''
                  else if aux \<in> set FUTURE_FORMS then ''FuturoPerfecto''
                  else if aux \<in> set COND_FORMS then ''CondicionalPerfecto''
                  else if list_ex (aux_sibling st p (lower (get_text w))) [0..<length st]
                  then ''PerfectoCompuesto''
                  else ''OtroCompuesto'')
         else ''PastOther'')"
  unfolding past_tense_label_def past_tense_label_with_def aux_sibling_def [abs_def] Let_def
  by simp

lemma classify_spec:
  assumes "classify_past_tense_form st p [0..<length st] = Inr st'"
  shows "st' = st[p := classifier_result st p]"
proof (cases "get_morph (st ! p)")
  case (PDict m)
  define tv where "tv = dict_get m ''Tense'' (PList [])"
  define vf where "vf = dict_get m ''VerbForm'' (PList [])"
  from assms PDict obtain past where past: "py_in ''Past'' tv = Inr past"
    by (cases "py_in ''Past'' tv") (auto simp: classify_past_tense_form_def tv_def Let_def)
  have fc_past: "feature_contains (st ! p) ''Tense'' ''Past'' = past"
    using PDict past by (simp add: feature_contains_def tv_def)
  show ?thesis
  proof (cases past)
    case False
    with assms PDict past have "st' = st"
      by (simp add: classify_past_tense_form_def tv_def Let_def)
    with False fc_past show ?thesis by (simp add: classifier_result_def)
  next
    case True
    from assms PDict past True obtain fin where fin: "py_in ''Fin'' vf = Inr fin"
      by (cases "py_in ''Fin'' vf")
         (auto simp: classify_past_tense_form_def tv_def vf_def Let_def)
    have fc_fin: "feature_contains (st ! p) ''VerbForm'' ''Fin'' = fin"
      using PDict fin by (simp add: feature_contains_def vf_def)
    show ?thesis
    proof (cases fin)
      case True
      with assms PDict past \<open>past\<close> fin
      have "st' = st[p := set_past_tense_type (st ! p) ''PerfectoSimple'']"
        by (simp add: classify_past_tense_form_def tv_def vf_def Let_def)
      with True fc_fin fc_past \<open>past\<close> show ?thesis
        by (simp add: classifier_result_def past_tense_label_scan Let_def)
    next
      case nofin: False
      from assms PDict past \<open>past\<close> fin nofin obtain part where
        part: "py_in ''Part'' vf = Inr part"
        by (cases "py_in ''Part'' vf")
           (auto simp: classify_past_tense_form_def tv_def vf_def Let_def)
      have fc_part: "feature_contains (st ! p) ''VerbForm'' ''Part'' = part"
        using PDict part by (simp add: feature_contains_def vf_def)
      show ?thesis
      proof (cases part)
        case False
        with assms PDict past \<open>past\<close> fin nofin part
        have "st' = st[p := set_past_tense_type (st ! p) ''PastOther'']"
          by (simp add: classify_past_tense_form_def tv_def vf_def Let_def)
        with False nofin fc_fin fc_part fc_past \<open>past\<close> show ?thesis
          by (simp add: classifier_result_def past_tense_label_scan Let_def)
      next
        case True
        define aux where "aux = lower (get_head_text (st ! p))"
        note defs = classify_past_tense_form_def tv_def vf_def Let_def aux_def
        have lab: "past_tense_label st p =
             (if aux \<in> set PRESENT_FORMS then ''PerfectoCompuesto''
              else if aux \<in> set IMPERFECT_FORMS then ''Pluscuamperfecto''
              else if aux \<in> set FUTURE_FORMS then ''FuturoPerfecto''
              else if aux \<in> set COND_FORMS then ''CondicionalPerfecto''
              else if list_ex (aux_sibling st p (lower (get_text (st ! p)))) [0..<length st]
              then ''PerfectoCompuesto''
              else ''OtroCompuesto'')"
          using True nofin fc_fin fc_part
          by (simp add: past_tense_label_scan Let_def aux_def)
        consider (pres) "aux \<in> set PRESENT_FORMS"
          | (imp) "aux \<notin> set PRESENT_FORMS" "aux \<in> set IMPERFECT_FORMS"
          | (fut) "aux \<notin> set PRESENT_FORMS" "aux \<notin> set IMPERFECT_FORMS"
                  "aux \<in> set FUTURE_FORMS"
          | (cond) "aux \<notin> set PRESENT_FORMS" "aux \<notin> set IMPERFECT_FORMS"
                   "aux \<notin> set FUTURE_FORMS" "aux \<in> set COND_FORMS"
          | (none) "aux \<notin> set PRESENT_FORMS" "aux \<notin> set IMPERFECT_FORMS"
                   "aux \<notin> set FUTURE_FORMS" "aux \<notin> set COND_FORMS"
          by blast
        then have "st' = st[p := set_past_tense_type (st ! p) (past_tense_label st p)]"
        proof cases
          case pres
          with assms PDict past \<open>past\<close> fin nofin part True
          have "st' = st[p := set_past_tense_type (st ! p) ''PerfectoCompuesto'']"
            by (simp add: defs)
          with pres lab show ?thesis by simp
        next
          case imp
          with assms PDict past \<open>past\<close> fin nofin part True
          have "st' = st[p := set_past_tense_type (st ! p) ''Pluscuamperfecto'']"
            by (simp add: defs)
          with imp lab show ?thesis by simp
        next
          case fut
          with assms PDict past \<open>past\<close> fin nofin part True
          have "st' = st[p := set_past_tense_type (st ! p) ''FuturoPerfecto'']"
            by (simp add: defs)
          with fut lab show ?thesis by simp
        next
          case cond
          with assms PDict past \<open>past\<close> fin nofin part True
          have "st' = st[p := set_past_tense_type (st ! p) ''CondicionalPerfecto'']"
            by (simp add: defs)
          with cond lab show ?thesis by simp
        next
          case none
          with assms PDict past \<open>past\<close> fin nofin part True
          have "(case detect_compound_any_fallback st p [0..<length st] of
                       Inl e \<Rightarrow> Inl e
                     | Inr (found, st1) \<Rightarrow>
                         if found then Inr st1
                         else Inr (st1[p := set_past_tense_type (st1 ! p) ''OtroCompuesto''])) = Inr st'"
            by (simp add: defs)
          then obtain found st1 where
            d: "detect_compound_any_fallback st p [0..<length st] = Inr (found, st1)"
            and r: "st' = (if found then st1
                           else st1[p := set_past_tense_type (st1 ! p) ''OtroCompuesto''])"
            by (auto split: sum.splits if_splits)
          from d obtain t where t: "w_text (st ! p) = Some t"
            and sl: "sibling_loop st p (lower t) [0..<length st] = Inr (found, st1)"
            by (auto simp: detect_compound_any_fallback_def split: option.splits)
          from t have gt: "get_text (st ! p) = t" by (simp add: get_text_def)
          from sibling_loop_spec [OF sl] r none lab gt show ?thesis
            by auto
        qed
        with fc_past \<open>past\<close> show ?thesis by (simp add: classifier_result_def)
      qed
    qed
  qed
qed (use assms in \<open>auto simp: classify_past_tense_form_def classifier_result_def feature_contains_def\<close>)

lemma feature_contains_morph:
  "feature_contains w k x \<Longrightarrow> \<exists>d. w_morph w = Some (PDict d)"
  unfolding feature_contains_def
  by (cases "w_morph w") (auto simp: get_morph_def dict_get_def split: pyval.splits)

lemma classifier_result_marked: "past_marked (ws ! j) (classifier_result ws j)"
  unfolding classifier_result_def past_marked_def
  by (auto dest: feature_contains_morph)

lemma past_marked_fields:
  assumes "past_marked w w'"
  shows "w_pos w' = w_pos w" and "get_head_text w' = get_head_text w"
    and "get_text w' = get_text w"
    and "k \<noteq> ''Past_Tense_Type'' \<Longrightarrow> feature_contains w' k x = feature_contains w k x"
  using assms unfolding past_marked_def
  by (auto simp: set_past_tense_type_def get_head_text_def get_text_def feature_contains_def
      get_morph_def dict_get_dict_set)

lemma past_tense_label_marked:
  assumes "length st = length orig" and "\<forall>j<length orig. past_marked (orig ! j) (st ! j)"
    and "p < length orig" and "st ! p = orig ! p"
  shows "past_tense_label st p = past_tense_label orig p"
proof -
  have "aux_sibling st p t j = aux_sibling orig p t j" if "j < length orig" for j t
  proof -
    from assms(2) that have m: "past_marked (orig ! j) (st ! j)" by simp
    from past_marked_fields(1,2) [OF m] past_marked_fields(4) [OF m, of "''Tense''" "''Pres''"]
    show ?thesis by (simp add: aux_sibling_def)
  qed
  then have "list_ex (aux_sibling st p t) [0..<length st] =
             list_ex (aux_sibling orig p t) [0..<length orig]" for t
    using assms(1) by (simp add: list_ex_iff)
  with assms(4) show ?thesis
    by (simp add: past_tense_label_scan Let_def)
qed

lemma classifier_result_marked_eq:
  assumes "length st = length orig" and "\<forall>j<length orig. past_marked (orig ! j) (st ! j)"
    and "p < length orig" and "st ! p = orig ! p"
  shows "classifier_result st p = classifier_result orig p"
  using past_tense_label_marked [OF assms] assms(4)
  by (simp add: classifier_result_def)

lemma tenses_step:
  assumes "tenses_loop st [0..<length st] (i # rest) = Inr st'"
  shows "tenses_loop (st[i := classifier_result st i]) [0..<length st] rest = Inr st'"
proof (cases "get_morph (st ! i)")
  case (PDict m)
  from assms PDict obtain past where
    past: "py_in ''Past'' (dict_get m ''Tense'' (PList [])) = Inr past"
    by (cases "py_in ''Past'' (dict_get m ''Tense'' (PList []))") auto
  have fc: "feature_contains (st ! i) ''Tense'' ''Past'' = past"
    using PDict past by (simp add: feature_contains_def)
  show ?thesis
  proof (cases past)
    case True
    with assms PDict past obtain st1 where
      c: "classify_past_tense_form st i [0..<length st] = Inr st1"
      and l: "tenses_loop st1 [0..<length st] rest = Inr st'"
      by (cases "classify_past_tense_form st i [0..<length st]") auto
    from classify_spec [OF c] l show ?thesis by simp
  next
    case False
    with fc have "classifier_result st i = st ! i" by (simp add: classifier_result_def)
    with assms PDict past False show ?thesis by simp
  qed
next
  case PNone
  then have "classifier_result st i = st ! i"
    by (simp add: classifier_result_def feature_contains_def)
  with assms PNone show ?thesis by simp
next
  case (PBool b)
  then have "classifier_result st i = st ! i"
    by (simp add: classifier_result_def feature_contains_def)
  with assms PBool show ?thesis by simp
next
  case (PNum n)
  then have "classifier_result st i = st ! i"
    by (simp add: classifier_result_def feature_contains_def)
  with assms PNum show ?thesis by simp
next
  case (PStr s)
  then have "classifier_result st i = st ! i"
    by (simp add: classifier_result_def feature_contains_def)
  with assms PStr show ?thesis by simp
next
  case (PList l)
  then have "classifier_result st i = st ! i"
    by (simp add: classifier_result_def feature_contains_def)
  with assms PList show ?thesis by simp
qed

lemma tenses_loop_spec:
  assumes "tenses_loop st [0..<length orig] [i..<length orig] = Inr st'"
    and "i \<le> length orig" and "length st = length orig"
    and "\<forall>j<length orig. st ! j = (if j < i then classifier_result orig j else orig ! j)"
  shows "length st' = length orig \<and> (\<forall>j<length orig. st' ! j = classifier_result orig j)"
  using assms
proof (induction "length orig - i" arbitrary: i st)
  case 0
  then have "i = length orig" by simp
  with "0.prems" show ?case by simp
next
  case (Suc n)
  then have lt: "i < length orig" by simp
  then have upt: "[i..<length orig] = i # [Suc i..<length orig]" by (simp add: upt_conv_Cons)
  have marked: "\<forall>j<length orig. past_marked (orig ! j) (st ! j)"
  proof (intro allI impI)
    fix j assume "j < length orig"
    with Suc.prems(4) have "st ! j = classifier_result orig j \<or> st ! j = orig ! j"
      by (cases "j < i") simp_all
    then show "past_marked (orig ! j) (st ! j)"
      using classifier_result_marked [of orig j] by (auto simp: past_marked_def)
  qed
  from Suc.prems(4) lt have same: "st ! i = orig ! i" by simp
  have cr: "classifier_result st i = classifier_result orig i"
    using Suc.prems(3) marked lt same by (rule classifier_result_marked_eq)
  define st1 where "st1 = st[i := classifier_result orig i]"
  from Suc.prems(1) upt Suc.prems(3)
  have "tenses_loop st [0..<length st] (i # [Suc i..<length orig]) = Inr st'" by simp
  from tenses_step [OF this] cr Suc.prems(3)
  have next_loop: "tenses_loop st1 [0..<length orig] [Suc i..<length orig] = Inr st'"
    by (simp add: st1_def)
  have inv: "\<forall>j<length orig. st1 ! j = (if j < Suc i then classifier_result orig j else orig ! j)"
    using Suc.prems(3,4) by (auto simp: st1_def nth_list_update less_Suc_eq)
  from Suc.hyps(2) have n: "n = length orig - Suc i" by simp
  from lt have le: "Suc i \<le> length orig" by simp
  have len: "length st1 = length orig" using Suc.prems(3) by (simp add: st1_def)
  from Suc.hyps(1) [OF n next_loop le len inv] show ?case .
qed

lemma tenses_segment_spec:
  assumes "tenses_segment seg = Inr seg'"
  shows "length (words seg') = length (words seg) \<and>
         (\<forall>j<length (words seg). words seg' ! j = classifier_result (words seg) j)"
proof -
  from assms obtain st' where
    loop: "tenses_loop (words seg) [0..<length (words seg)] [0..<length (words seg)] = Inr st'"
    and seg': "seg' = seg\<lparr>words := st'\<rparr>"
    by (auto simp: tenses_segment_def Let_def split: sum.splits)
  from tenses_loop_spec [OF loop] seg' show ?thesis by simp
qed

lemma haber_run: "post_process_compound_tenses haber_data = Inr haber_result"
  by code_simp

lemma tenses_pass_spec:
  assumes "post_process_compound_tenses data = Inr data'"
  shows "length (segments data') = length (segments data) \<and>
         (\<forall>k<length (segments data).
            length (words (segments data' ! k)) = length (words (segments data ! k)) \<and>
            (\<forall>j<length (words (segments data ! k)).
               words (segments data' ! k) ! j = classifier_result (words (segments data ! k)) j))"
proof -
  from assms obtain segs where
    fs: "for_segments tenses_segment (segments data) = Inr segs"
    and d: "data' = data\<lparr>segments := segs\<rparr>"
    by (auto simp: post_process_compound_tenses_def split: sum.splits)
  from for_segments_nth [OF fs] d
  have len: "length (segments data') = length (segments data)"
    and each: "\<forall>k<length (segments data).
                 tenses_segment (segments data ! k) = Inr (segments data' ! k)"
    by simp_all
  show ?thesis
  proof (intro conjI allI impI)
    show "length (segments data') = length (segments data)" by (rule len)
  next
    fix k assume "k < length (segments data)"
    with each have "tenses_segment (segments data ! k) = Inr (segments data' ! k)" by simp
    from tenses_segment_spec [OF this]
    show "length (words (segments data' ! k)) = length (words (segments data ! k))"
      by simp
  next
    fix k j assume "k < length (segments data)" "j < length (words (segments data ! k))"
    with each have "tenses_segment (segments data ! k) = Inr (segments data' ! k)" by simp
    from tenses_segment_spec [OF this] \<open>j < length (words (segments data ! k))\<close>
    show "words (segments data' ! k) ! j = classifier_result (words (segments data ! k)) j"
      by simp
  qed
qed

lemma classifier_result_wf:
  "well_formed_word (ws ! j) \<Longrightarrow> well_formed_word (classifier_result ws j)"
  by (simp add: classifier_result_def set_past_tense_type_wf)

lemma sibling_loop_total:
  assumes "\<forall>j\<in>set js. well_formed_morph (st ! j)"
  shows "\<exists>r. sibling_loop st p ptl js = Inr r"
  using assms
proof (induction js)
  case Nil
  show ?case by (metis sibling_loop.simps(1))
next
  case (Cons j js)
  then have wf: "well_formed_morph (st ! j)" and rest: "\<exists>r. sibling_loop st p ptl js = Inr r"
    by simp_all
  from wf obtain d where m: "get_morph (st ! j) = PDict d"
    and it: "list_all (\<lambda>kv. iterable (snd kv)) d"
    by (rule well_formed_morph_cases)
  from py_in_iterable [OF dict_get_iterable [OF it]] obtain b where
    b: "py_in ''Pres'' (dict_get d ''Tense'' (PList [])) = Inr b" by blast
  from rest obtain r where r: "sibling_loop st p ptl js = Inr r" by blast
  show ?case
  proof (cases "j = p \<or> w_pos (st ! j) \<noteq> Some ''AUX''")
    case True
    with r show ?thesis by auto
  next
    case False
    show ?thesis
    proof (cases "b \<and> lower (get_head_text (st ! j)) = ptl")
      case True
      with False m b show ?thesis by auto
    next
      case no: False
      with False m b r show ?thesis by auto
    qed
  qed
qed

lemma classify_total:
  assumes "\<forall>j<length st. well_formed_word (st ! j)" and "p < length st"
  shows "\<exists>st'. classify_past_tense_form st p [0..<length st] = Inr st'"
proof -
  from assms have wf: "well_formed_morph (st ! p)" and t: "w_text (st ! p) \<noteq> None"
    by (simp_all add: well_formed_word_def)
  from wf obtain d where m: "get_morph (st ! p) = PDict d"
    and it: "list_all (\<lambda>kv. iterable (snd kv)) d"
    by (rule well_formed_morph_cases)
  from py_in_iterable [OF dict_get_iterable [OF it]] obtain past fin part where
    b: "py_in ''Past'' (dict_get d ''Tense'' (PList [])) = Inr past"
       "py_in ''Fin'' (dict_get d ''VerbForm'' (PList [])) = Inr fin"
       "py_in ''Part'' (dict_get d ''VerbForm'' (PList [])) = Inr part"
    by metis
  have "\<forall>j\<in>set [0..<length st]. well_formed_morph (st ! j)"
    using assms(1) by (simp add: well_formed_word_def)
  from sibling_loop_total [OF this] t
  have "\<exists>r. detect_compound_any_fallback st p [0..<length st] = Inr r"
    by (auto simp: detect_compound_any_fallback_def)
  then obtain found st1 where
    "detect_compound_any_fallback st p [0..<length st] = Inr (found, st1)"
    by auto
  with m b show ?thesis
    by (simp add: classify_past_tense_form_def Let_def)
qed

lemma tenses_loop_total:
  assumes "\<forall>j<length st. well_formed_word (st ! j)" and "set rs \<subseteq> {..<length st}"
  shows "\<exists>st'. tenses_loop st [0..<length st] rs = Inr st'"
  using assms
proof (induction rs arbitrary: st)
  case Nil
  then show ?case by simp
next
  case (Cons r rs)
  then have r: "r < length st" by simp
  define st1 where "st1 = st[r := classifier_result st r]"
  have wf1: "\<forall>j<length st1. well_formed_word (st1 ! j)"
    using Cons.prems(1) r
    by (auto simp: st1_def nth_list_update classifier_result_wf)
  have len: "length st1 = length st" by (simp add: st1_def)
  from Cons.prems(2) len have "set rs \<subseteq> {..<length st1}" by simp
  from Cons.IH [OF wf1 this] len obtain st' where
    next_loop: "tenses_loop st1 [0..<length st] rs = Inr st'" by auto
  from Cons.prems(1) r have "well_formed_morph (st ! r)" by (simp add: well_formed_word_def)
  then obtain d where m: "get_morph (st ! r) = PDict d"
    and it: "list_all (\<lambda>kv. iterable (snd kv)) d"
    by (rule well_formed_morph_cases)
  from py_in_iterable [OF dict_get_iterable [OF it]] obtain past where
    past: "py_in ''Past'' (dict_get d ''Tense'' (PList [])) = Inr past" by blast
  show ?case
  proof (cases past)
    case True
    from classify_total [OF Cons.prems(1) r] obtain st2 where
      c: "classify_past_tense_form st r [0..<length st] = Inr st2" by blast
    from classify_spec [OF c] have "st2 = st1" by (simp add: st1_def)
    with m past True c next_loop show ?thesis by simp
  next
    case False
    with m past have "classifier_result st r = st ! r"
      by (simp add: classifier_result_def feature_contains_def)
    then have "st1 = st" by (simp add: st1_def)
    with m past False next_loop show ?thesis by simp
  qed
qed

lemma tenses_segment_total:
  assumes "\<forall>w\<in>set (words seg). well_formed_word w"
  shows "\<exists>seg'. tenses_segment seg = Inr seg'"
proof -
  from assms have "\<forall>j<length (words seg). well_formed_word (words seg ! j)" by simp
  moreover have "set [0..<length (words seg)] \<subseteq> {..<length (words seg)}"
    by auto
  ultimately obtain st' where
    "tenses_loop (words seg) [0..<length (words seg)] [0..<length (words seg)] = Inr st'"
    using tenses_loop_total by blast
  then show ?thesis by (simp add: tenses_segment_def Let_def)
qed

lemma tenses_pass_total:
  assumes "\<forall>seg\<in>set (segments data). \<forall>w\<in>set (words seg). well_formed_word w"
  shows "\<exists>data'. post_process_compound_tenses data = Inr data'"
proof -
  from assms have "\<forall>seg\<in>set (segments data). \<exists>seg'. tenses_segment seg = Inr seg'"
    by (simp add: tenses_segment_total)
  from for_segments_total [OF this] show ?thesis
    by (auto simp: post_process_compound_tenses_def)
qed

text \<open>
  Claim C3, as amended. On a transcript of well-formed words the classifier returns.
  Whenever it returns, the word at each position of each
  segment whose morphology is a mapping with \<open>Past\<close> among its Tense values carries the
  \<open>Past_Tense_Type\<close> label of this decision order, and every other word is as it was:
  \<open>PerfectoSimple\<close> if the VerbForm values contain \<open>Fin\<close>; else, if they contain \<open>Part\<close>,
  the label of the lexicon of \<^verbatim>\<open>haber\<close> forms that has the lower-cased head text
  (present, imperfect, future, conditional), and with no such lexicon
  \<open>PerfectoCompuesto\<close> if another word of the segment has part of speech AUX, \<open>Pres\<close>
  among its Tense values and a lower-cased head text equal to the lower-cased text of
  the participle, \<open>OtroCompuesto\<close> otherwise; else \<open>PastOther\<close>. In particular a
  participle whose head text is the imperfect form of the third person is labelled
  \<open>Pluscuamperfecto\<close> and one whose head text is \<open>ha\<close> is labelled \<open>PerfectoCompuesto\<close>.
\<close>

theorem past_tense_classifier:
  "((\<forall>seg\<in>set (segments data). \<forall>w\<in>set (words seg). well_formed_word w) \<longrightarrow>
      (\<exists>data'. post_process_compound_tenses data = Inr data')) \<and>
   (\<forall>data'. post_process_compound_tenses data = Inr data' \<longrightarrow>
      length (segments data') = length (segments data) \<and>
      (\<forall>k<length (segments data).
         length (words (segments data' ! k)) = length (words (segments data ! k)) \<and>
         (\<forall>j<length (words (segments data ! k)).
            words (segments data' ! k) ! j = classifier_result (words (segments data ! k)) j))) \<and>
   (\<forall>st p. \<not> feature_contains (st ! p) ''VerbForm'' ''Fin'' \<and>
           feature_contains (st ! p) ''VerbForm'' ''Part'' \<and>
           get_head_text (st ! p) = ''hab'' @ [CHR 0xED] @ ''a'' \<longrightarrow>
           past_tense_label st p = ''Pluscuamperfecto'') \<and>
   (\<forall>st p. \<not> feature_contains (st ! p) ''VerbForm'' ''Fin'' \<and>
           feature_contains (st ! p) ''VerbForm'' ''Part'' \<and>
           get_head_text (st ! p) = ''ha'' \<longrightarrow>
           past_tense_label st p = ''PerfectoCompuesto'')"
proof (intro conjI impI allI)
  assume "\<forall>seg\<in>set (segments data). \<forall>w\<in>set (words seg). well_formed_word w"
  then show "\<exists>data'. post_process_compound_tenses data = Inr data'"
    by (rule tenses_pass_total)
next
  fix data' assume run: "post_process_compound_tenses data = Inr data'"
  from tenses_pass_spec [OF run]
  show "length (segments data') = length (segments data)" by simp
  fix k assume k: "k < length (segments data)"
  from tenses_pass_spec [OF run] k
  show "length (words (segments data' ! k)) = length (words (segments data ! k))" by simp
  fix j assume "j < length (words (segments data ! k))"
  with tenses_pass_spec [OF run] k
  show "words (segments data' ! k) ! j = classifier_result (words (segments data ! k)) j" by simp
next
  fix st :: "word list" and p
  assume "\<not> feature_contains (st ! p) ''VerbForm'' ''Fin'' \<and>
          feature_contains (st ! p) ''VerbForm'' ''Part'' \<and>
          get_head_text (st ! p) = ''hab'' @ [CHR 0xED] @ ''a''"
  moreover have "lower (''hab'' @ [CHR 0xED] @ ''a'') = ''hab'' @ [CHR 0xED] @ ''a''"
    by (simp add: lower_def lower_char_def is_upper_def)
  ultimately show "past_tense_label st p = ''Pluscuamperfecto''"
    by (simp add: past_tense_label_scan Let_def PRESENT_FORMS_def IMPERFECT_FORMS_def)
next
  fix st :: "word list" and p
  assume "\<not> feature_contains (st ! p) ''VerbForm'' ''Fin'' \<and>
          feature_contains (st ! p) ''VerbForm'' ''Part'' \<and>
          get_head_text (st ! p) = ''ha''"
  moreover have "lower ''ha'' = ''ha''"
    by (simp add: lower_def lower_char_def is_upper_def)
  ultimately show "past_tense_label st p = ''PerfectoCompuesto''"
    by (simp add: past_tense_label_scan Let_def PRESENT_FORMS_def)
qed

theorem past_tense_classifier_witness:
  "list_all (\<lambda>seg. list_all well_formed_word (words seg)) (segments haber_data) \<and>
   post_process_compound_tenses haber_data = Inr haber_result \<and>
   words (segments haber_result ! 0) ! 1 =
     set_past_tense_type (words (segments haber_data ! 0) ! 1) ''Pluscuamperfecto'' \<and>
   words (segments haber_result ! 1) ! 1 =
     set_past_tense_type (words (segments haber_data ! 1) ! 1) ''PerfectoCompuesto'' \<and>
   words (segments haber_result ! 0) ! 0 = words (segments haber_data ! 0) ! 0"
proof -
  note inst = past_tense_classifier [of haber_data]
  have wf: "list_all (\<lambda>seg. list_all well_formed_word (words seg)) (segments haber_data)"
    by (simp add: haber_data_def past_part_def annotated_word_def plain_word_def
        well_formed_word_def well_formed_morph_def iterable_def)
  then have "\<forall>seg\<in>set (segments haber_data). \<forall>w\<in>set (words seg). well_formed_word w"
    by (simp add: list_all_iff)
  with inst have "\<exists>data'. post_process_compound_tenses haber_data = Inr data'"
    by blast
  from inst haber_run
  have spec: "\<forall>k<length (segments haber_data).
         \<forall>j<length (words (segments haber_data ! k)).
            words (segments haber_result ! k) ! j =
              classifier_result (words (segments haber_data ! k)) j"
    by blast
  have l: "length (segments haber_data) = 2" "length (words (segments haber_data ! 0)) = 2"
          "length (words (segments haber_data ! 1)) = 2"
    by (simp_all add: haber_data_def)
  have c: "classifier_result (words (segments haber_data ! 0)) 1 =
             set_past_tense_type (words (segments haber_data ! 0) ! 1) ''Pluscuamperfecto''"
          "classifier_result (words (segments haber_data ! 1)) 1 =
             set_past_tense_type (words (segments haber_data ! 1) ! 1) ''PerfectoCompuesto''"
          "classifier_result (words (segments haber_data ! 0)) 0 = words (segments haber_data ! 0) ! 0"
    by code_simp+
  from spec l c haber_run wf
  show ?thesis by simp
qed

text \<open>The claim as worded compares the auxiliary's lower-cased head text with the
  participle's text as it stands; for a capitalised participle the code finds the
  auxiliary all the same.\<close>

theorem past_tense_label_counterexample:
  "classify_past_tense_form capital_words 0 [0..<length capital_words] =
     Inr (capital_words[0 := set_past_tense_type (capital_words ! 0) ''PerfectoCompuesto'']) \<and>
   lower (get_head_text (capital_words ! 0)) \<notin> set (PRESENT_FORMS @ IMPERFECT_FORMS @ FUTURE_FORMS @ COND_FORMS) \<and>
   lower (get_head_text (capital_words ! 1)) \<noteq> get_text (capital_words ! 0) \<and>
   claimed_past_tense_label capital_words 0 = ''OtroCompuesto''"
  by code_simp

subsection \<open>The pipeline\<close>

lemma align_word_fields:
  "clear_word (fst (align_word nlp doc w k)) = clear_word w \<and>
   fully_annotated (fst (align_word nlp doc w k)) \<and>
   w_foreign (fst (align_word nlp doc w k)) = w_foreign w \<and>
   get_text (fst (align_word nlp doc w k)) = get_text w"
  by (auto simp: align_word_def Let_def clear_word_def fully_annotated_def get_text_def
      fill_word_annotation_def update_annotation_def split: prod.splits option.splits)

lemma annotate_word_effect:
  "\<exists>w'. store (annotate_word nlp doc r s) = (store s)[r := w'] \<and>
         clear_word w' = clear_word (store s ! r) \<and>
         (cleared (store s ! r) \<or> word_outcome (store s ! r) \<longrightarrow> word_outcome w')"
proof -
  define w where "w = store s ! r"
  consider (foreign) "w_foreign w = Some ''1''"
    | (dash) "w_foreign w \<noteq> Some ''1''" "endswith (get_text w) ''-''"
    | (eeh) "w_foreign w \<noteq> Some ''1''" "\<not> endswith (get_text w) ''-''" "lower (get_text w) = ''eeh''"
    | (plain) "w_foreign w \<noteq> Some ''1''" "\<not> endswith (get_text w) ''-''" "lower (get_text w) \<noteq> ''eeh''"
    by blast
  then show ?thesis
  proof cases
    case foreign
    then have "store (annotate_word nlp doc r s) = (store s)[r := w]"
      by (simp add: annotate_word_def w_def Let_def)
    moreover have "cleared w \<or> word_outcome w \<longrightarrow> word_outcome w"
      using foreign by (auto simp: word_outcome_def)
    ultimately show ?thesis unfolding w_def by blast
  next
    case dash
    define w' where "w' = w\<lparr>w_pos := Some ''self-correction''\<rparr>"
    from dash have "store (annotate_word nlp doc r s) = (store s)[r := w']"
      by (simp add: annotate_word_def w_def w'_def Let_def)
    moreover have "clear_word w' = clear_word w"
      by (simp add: w'_def clear_word_def)
    moreover have "cleared w \<or> word_outcome w \<longrightarrow> word_outcome w'"
      using dash
      by (auto simp: word_outcome_def cleared_def fully_annotated_def w'_def get_text_def)
    ultimately show ?thesis unfolding w_def by blast
  next
    case eeh
    define w' where "w' = w\<lparr>w_pos := Some ''INTJ'', w_lemma := Some (get_text w),
        w_dep := Some '''', w_head_text := Some '''', w_morph := Some (PDict [])\<rparr>"
    from eeh have "store (annotate_word nlp doc r s) = (store s)[r := w']"
      by (simp add: annotate_word_def w_def w'_def Let_def)
    moreover have "clear_word w' = clear_word w"
      by (simp add: w'_def clear_word_def)
    moreover have "word_outcome w'"
      using eeh
      by (simp add: word_outcome_def fully_annotated_def w'_def get_text_def)
    ultimately show ?thesis unfolding w_def by blast
  next
    case plain
    define w' where "w' = fst (align_word nlp doc w (tok s))"
    from plain have "store (annotate_word nlp doc r s) = (store s)[r := w']"
      by (simp add: annotate_word_plain w_def w'_def)
    moreover have "clear_word w' = clear_word w"
      by (simp add: w'_def align_word_fields)
    moreover have "word_outcome w'"
      using plain align_word_fields [of nlp doc w "tok s"]
      by (simp add: word_outcome_def w'_def)
    ultimately show ?thesis unfolding w_def by blast
  qed
qed

lemma annotate_word_inv:
  assumes "progress_inv (store s) R"
  shows "progress_inv (store (annotate_word nlp doc r s)) (insert r R)"
proof -
  from annotate_word_effect [of nlp doc r s] obtain w' where
    st: "store (annotate_word nlp doc r s) = (store s)[r := w']"
    and ok: "cleared (store s ! r) \<or> word_outcome (store s ! r) \<longrightarrow> word_outcome w'"
    by blast
  show ?thesis
    unfolding progress_inv_def st
  proof (intro conjI allI ballI impI)
    fix j assume "j < length ((store s)[r := w'])"
    then show "cleared ((store s)[r := w'] ! j) \<or> word_outcome ((store s)[r := w'] ! j)"
      using assms ok by (cases "j = r") (auto simp: progress_inv_def)
  next
    fix j assume "j \<in> insert r R" "j < length ((store s)[r := w'])"
    then show "word_outcome ((store s)[r := w'] ! j)"
      using assms ok by (cases "j = r") (auto simp: progress_inv_def)
  qed
qed

lemma annotate_word_clear:
  "map clear_word (store (annotate_word nlp doc r s)) = map clear_word (store s)"
proof -
  from annotate_word_effect [of nlp doc r s] obtain w' where
    st: "store (annotate_word nlp doc r s) = (store s)[r := w']"
    and c: "clear_word w' = clear_word (store s ! r)"
    by blast
  show ?thesis
  proof (cases "r < length (store s)")
    case True
    then show ?thesis unfolding st by (simp add: map_update c list_update_same_conv)
  next
    case False
    then have "length (store s) \<le> r" by simp
    then have "(store s)[r := w'] = store s" by (rule list_update_beyond)
    then show ?thesis by (simp only: st)
  qed
qed

lemma annotate_words_inv:
  "progress_inv (store s) R \<Longrightarrow> progress_inv (store (annotate_words nlp doc rs s)) (R \<union> set rs)"
proof (induction rs arbitrary: s R)
  case Nil
  then show ?case by simp
next
  case (Cons r rs)
  from annotate_word_inv [OF Cons.prems]
  have "progress_inv (store (annotate_word nlp doc r s)) (insert r R)" .
  from Cons.IH [OF this] show ?case by simp
qed

lemma annotate_words_clear:
  "map clear_word (store (annotate_words nlp doc rs s)) = map clear_word (store s)"
  by (induction rs arbitrary: s) (simp_all add: annotate_word_clear)

lemma annotate_sentence_inv:
  "progress_inv (fst sn) R \<Longrightarrow>
   progress_inv (fst (annotate_sentence nlp sl i sn)) (R \<union> set (sl ! i))"
  using annotate_words_inv [of "\<lparr>store = fst sn, tok = 0, annotated = snd sn\<rparr>" R]
  by (simp add: annotate_sentence_def Let_def)

lemma annotate_sentence_clear:
  "map clear_word (fst (annotate_sentence nlp sl i sn)) = map clear_word (fst sn)"
  by (simp add: annotate_sentence_def Let_def annotate_words_clear)

lemma fold_sentences_inv:
  "progress_inv (fst sn) R \<Longrightarrow>
   progress_inv (fst (fold (annotate_sentence nlp sl) is sn)) (R \<union> (\<Union>i\<in>set is. set (sl ! i)))"
proof (induction "is" arbitrary: sn R)
  case Nil
  then show ?case by simp
next
  case (Cons i "is")
  from annotate_sentence_inv [OF Cons.prems]
  have "progress_inv (fst (annotate_sentence nlp sl i sn)) (R \<union> set (sl ! i))" .
  from Cons.IH [OF this] show ?case by (simp add: Un_assoc)
qed

lemma fold_sentences_clear:
  "map clear_word (fst (fold (annotate_sentence nlp sl) is sn)) = map clear_word (fst sn)"
  by (induction "is" arbitrary: sn) (simp_all add: annotate_sentence_clear)

lemma concat_split_loop:
  "concat (split_loop st ws cur acc) = concat acc @ cur @ ws"
  by (induction st ws cur acc rule: split_loop.induct) (simp_all add: Let_def)

lemma concat_split_into_sentences: "concat (split_into_sentences st ws) = ws"
  by (simp add: split_into_sentences_def concat_split_loop)

lemma sentences_cover:
  "(\<Union>i\<in>set [0..<length sl]. set (sl ! i)) = set (concat sl)"
proof -
  have "nth sl ` {0..<length sl} = set sl"
    using nth_image [of "length sl" sl] by simp
  then have "\<Union> (set ` set sl) = (\<Union>i\<in>{0..<length sl}. set (sl ! i))"
    by (metis image_image)
  then show ?thesis by simp
qed

lemma annotate_segment_clear:
  "map clear_word (fst (annotate_segment nlp (ws, n))) = map clear_word ws"
  by (simp add: annotate_segment_def Let_def fold_sentences_clear)

lemma annotate_segment_outcome:
  assumes "\<forall>w\<in>set ws. cleared w"
  shows "\<forall>w\<in>set (fst (annotate_segment nlp (ws, n))). word_outcome w"
proof (cases "ws = []")
  case True
  then show ?thesis by (simp add: annotate_segment_def)
next
  case False
  define sl where "sl = split_into_sentences ws [0..<length ws]"
  define st' where "st' = fst (fold (annotate_sentence nlp sl) [0..<length sl] (ws, n))"
  have res: "fst (annotate_segment nlp (ws, n)) = st'"
    using False by (simp add: annotate_segment_def Let_def sl_def st'_def)
  have "progress_inv (fst (ws, n)) {}"
    using assms by (simp add: progress_inv_def)
  from fold_sentences_inv [OF this, of nlp sl "[0..<length sl]"]
  have inv: "progress_inv st' (set (concat sl))"
    unfolding st'_def sentences_cover [symmetric] by simp
  have cover: "set (concat sl) = {0..<length ws}"
    by (simp add: sl_def concat_split_into_sentences)
  have "length (map clear_word st') = length (map clear_word ws)"
    unfolding st'_def by (simp only: fold_sentences_clear fst_conv)
  then have len: "length st' = length ws" by simp
  have "\<forall>j<length st'. word_outcome (st' ! j)"
  proof (intro allI impI)
    fix j assume j: "j < length st'"
    with len have "j \<in> {0..<length ws}" by simp
    with cover have "j \<in> set (concat sl)" by (simp only:)
    with inv j show "word_outcome (st' ! j)"
      unfolding progress_inv_def by blast
  qed
  then show ?thesis unfolding res by (auto simp: in_set_conv_nth)
qed

lemma annotate_segments_spec:
  "annotate_segments nlp segs n = (segs', n') \<Longrightarrow>
   length segs' = length segs \<and>
   (\<forall>k<length segs. map clear_word (words (segs' ! k)) = map clear_word (words (segs ! k)) \<and>
      ((\<forall>w\<in>set (words (segs ! k)). cleared w) \<longrightarrow>
       (\<forall>w\<in>set (words (segs' ! k)). word_outcome w)))"
proof (induction segs arbitrary: n segs' n')
  case Nil
  then show ?case by simp
next
  case (Cons s segs)
  obtain wl n1 where a: "annotate_segment nlp (words s, n) = (wl, n1)"
    by (cases "annotate_segment nlp (words s, n)")
  obtain rest n2 where r: "annotate_segments nlp segs n1 = (rest, n2)"
    by (cases "annotate_segments nlp segs n1")
  from Cons.prems a r have eq: "segs' = s\<lparr>words := wl\<rparr> # rest" by simp
  from a have wl: "wl = fst (annotate_segment nlp (words s, n))" by simp
  have h1: "map clear_word wl = map clear_word (words s)"
    unfolding wl by (rule annotate_segment_clear)
  have h2: "(\<forall>w\<in>set (words s). cleared w) \<longrightarrow> (\<forall>w\<in>set wl. word_outcome w)"
    unfolding wl using annotate_segment_outcome by blast
  from Cons.IH [OF r] h1 h2 eq show ?case
    by (auto simp: nth_Cons split: nat.splits)
qed

lemma morph_update_outcome:
  assumes "w_morph w \<noteq> None"
  shows "clear_word (w\<lparr>w_morph := Some m\<rparr>) = clear_word w"
    and "word_outcome w \<Longrightarrow> word_outcome (w\<lparr>w_morph := Some m\<rparr>)"
proof -
  show "clear_word (w\<lparr>w_morph := Some m\<rparr>) = clear_word w"
    by (simp add: clear_word_def)
  assume "word_outcome w"
  with assms have "w_foreign w \<noteq> Some ''1'' \<and> \<not> endswith (get_text w) ''-'' \<and> fully_annotated w"
    unfolding word_outcome_def cleared_def by (elim disjE conjE; simp)
  then have "w_foreign (w\<lparr>w_morph := Some m\<rparr>) \<noteq> Some ''1'' \<and>
             \<not> endswith (get_text (w\<lparr>w_morph := Some m\<rparr>)) ''-'' \<and>
             fully_annotated (w\<lparr>w_morph := Some m\<rparr>)"
    by (simp add: get_text_def fully_annotated_def)
  then show "word_outcome (w\<lparr>w_morph := Some m\<rparr>)"
    unfolding word_outcome_def by (intro disjI2)
qed

lemma past_marked_outcome:
  assumes "past_marked w w'"
  shows "clear_word w' = clear_word w" and "word_outcome w \<Longrightarrow> word_outcome w'"
proof -
  from assms consider "w' = w"
    | l d where "w_morph w = Some (PDict d)"
        "w' = w\<lparr>w_morph := Some (PDict (dict_set d ''Past_Tense_Type'' (PStr l)))\<rparr>"
    unfolding past_marked_def by (auto simp: set_past_tense_type_def)
  then have "clear_word w' = clear_word w \<and> (word_outcome w \<longrightarrow> word_outcome w')"
  proof cases
    case 1
    then show ?thesis by simp
  next
    case 2
    then have "w_morph w \<noteq> None" by simp
    from morph_update_outcome [OF this] 2(2) show ?thesis by simp
  qed
  then show "clear_word w' = clear_word w" and "word_outcome w \<Longrightarrow> word_outcome w'"
    by simp_all
qed

lemma future_marked_outcome:
  assumes "future_marked w w'"
  shows "clear_word w' = clear_word w" and "word_outcome w \<Longrightarrow> word_outcome w'"
proof -
  from assms consider "w' = w"
    | l d where "w_morph w = Some (PDict d)"
        "w' = w\<lparr>w_morph := Some (PDict (dict_set d ''Future_Type'' (PStr l)))\<rparr>"
    unfolding future_marked_def by (auto simp: add_future_type_def morph_dict_def)
  then have "clear_word w' = clear_word w \<and> (word_outcome w \<longrightarrow> word_outcome w')"
  proof cases
    case 1
    then show ?thesis by simp
  next
    case 2
    then have "w_morph w \<noteq> None" by simp
    from morph_update_outcome [OF this] 2(2) show ?thesis by simp
  qed
  then show "clear_word w' = clear_word w" and "word_outcome w \<Longrightarrow> word_outcome w'"
    by simp_all
qed

lemma marked_words:
  assumes "length ws' = length ws"
    and "\<forall>j<length ws. clear_word (ws' ! j) = clear_word (ws ! j) \<and>
                        (word_outcome (ws ! j) \<longrightarrow> word_outcome (ws' ! j))"
  shows "map clear_word ws' = map clear_word ws"
    and "(\<forall>w\<in>set ws. word_outcome w) \<Longrightarrow> (\<forall>w\<in>set ws'. word_outcome w)"
proof -
  show "map clear_word ws' = map clear_word ws"
    using assms by (simp add: list_eq_iff_nth_eq)
  assume "\<forall>w\<in>set ws. word_outcome w"
  then have "\<forall>j<length ws. word_outcome (ws ! j)" by simp
  with assms show "\<forall>w\<in>set ws'. word_outcome w"
    by (auto simp: in_set_conv_nth)
qed

lemma tenses_segment_outcome:
  assumes "tenses_segment seg = Inr seg'"
  shows "map clear_word (words seg') = map clear_word (words seg)"
    and "(\<forall>w\<in>set (words seg). word_outcome w) \<Longrightarrow> (\<forall>w\<in>set (words seg'). word_outcome w)"
proof -
  from tenses_segment_spec [OF assms]
  have len: "length (words seg') = length (words seg)"
    and each: "\<forall>j<length (words seg). words seg' ! j = classifier_result (words seg) j"
    by simp_all
  have m: "\<forall>j<length (words seg).
             clear_word (words seg' ! j) = clear_word (words seg ! j) \<and>
             (word_outcome (words seg ! j) \<longrightarrow> word_outcome (words seg' ! j))"
    using each past_marked_outcome [OF classifier_result_marked [of "words seg"]]
    by simp
  from marked_words(1) [OF len m]
  show "map clear_word (words seg') = map clear_word (words seg)" .
  assume "\<forall>w\<in>set (words seg). word_outcome w"
  with marked_words(2) [OF len m]
  show "\<forall>w\<in>set (words seg'). word_outcome w" by simp
qed

lemma futures_segment_outcome:
  assumes "futures_segment seg = Inr seg'"
  shows "map clear_word (words seg') = map clear_word (words seg)"
    and "(\<forall>w\<in>set (words seg). word_outcome w) \<Longrightarrow> (\<forall>w\<in>set (words seg'). word_outcome w)"
proof -
  from futures_segment_spec [OF assms]
  have len: "length (words seg') = length (words seg)"
    and each: "\<forall>j<length (words seg). words seg' ! j = detector_result (words seg) j"
    by simp_all
  have m: "\<forall>j<length (words seg).
             clear_word (words seg' ! j) = clear_word (words seg ! j) \<and>
             (word_outcome (words seg ! j) \<longrightarrow> word_outcome (words seg' ! j))"
    using each future_marked_outcome [OF detector_result_marked [of "words seg"]]
    by simp
  from marked_words(1) [OF len m]
  show "map clear_word (words seg') = map clear_word (words seg)" .
  assume "\<forall>w\<in>set (words seg). word_outcome w"
  with marked_words(2) [OF len m]
  show "\<forall>w\<in>set (words seg'). word_outcome w" by simp
qed

lemma pipeline_stages:
  assumes "annotate_file nlp data n = Inr (data', n')"
  shows "length (segments data') = length (segments data) \<and>
         (\<forall>k<length (segments data).
            map clear_word (words (segments data' ! k)) = map clear_word (words (segments data ! k)) \<and>
            (\<forall>w\<in>set (words (segments data' ! k)). word_outcome w))"
proof -
  define c where "c = clear_annotations data"
  obtain segs n1 where a: "annotate_segments nlp (segments c) n = (segs, n1)"
    by (cases "annotate_segments nlp (segments c) n")
  from assms a obtain data1 where
    t: "post_process_compound_tenses (c\<lparr>segments := segs\<rparr>) = Inr data1"
    and f: "post_process_compound_futures data1 = Inr data'"
    by (auto simp: annotate_file_def annotate_cleared_def c_def split: sum.splits)
  from t obtain segs1 where
    t1: "for_segments tenses_segment segs = Inr segs1" and d1: "data1 = c\<lparr>segments := segs1\<rparr>"
    by (auto simp: post_process_compound_tenses_def split: sum.splits)
  from f d1 obtain segs2 where
    f1: "for_segments futures_segment segs1 = Inr segs2" and d2: "data' = data1\<lparr>segments := segs2\<rparr>"
    by (auto simp: post_process_compound_futures_def split: sum.splits)
  have lc: "length (segments c) = length (segments data)"
    by (simp add: c_def clear_annotations_def)
  note A = annotate_segments_spec [OF a]
  note T = for_segments_nth [OF t1]
  note F = for_segments_nth [OF f1]
  from A T F lc d2 have len: "length (segments data') = length (segments data)" by simp
  have each: "map clear_word (words (segments data' ! k)) = map clear_word (words (segments data ! k)) \<and>
              (\<forall>w\<in>set (words (segments data' ! k)). word_outcome w)"
    if k: "k < length (segments data)" for k
  proof -
    have c0: "words (segments c ! k) = map clear_word (words (segments data ! k))"
      using k by (simp add: c_def clear_annotations_def)
    then have cl: "\<forall>w\<in>set (words (segments c ! k)). cleared w"
      by (auto simp: cleared_def clear_word_def)
    from A k lc cl
    have a1: "map clear_word (words (segs ! k)) = map clear_word (words (segments c ! k))"
      and a2: "\<forall>w\<in>set (words (segs ! k)). word_outcome w"
      by auto
    from T A k lc have tk: "tenses_segment (segs ! k) = Inr (segs1 ! k)" by simp
    from F T A k lc have fk: "futures_segment (segs1 ! k) = Inr (segs2 ! k)" by simp
    from tenses_segment_outcome [OF tk] a2
    have t1: "map clear_word (words (segs1 ! k)) = map clear_word (words (segs ! k))"
      and t2: "\<forall>w\<in>set (words (segs1 ! k)). word_outcome w"
      by simp_all
    from futures_segment_outcome [OF fk] t2
    have f1: "map clear_word (words (segs2 ! k)) = map clear_word (words (segs1 ! k))"
      and f2: "\<forall>w\<in>set (words (segs2 ! k)). word_outcome w"
      by simp_all
    have idem: "map clear_word (map clear_word (words (segments data ! k))) =
                map clear_word (words (segments data ! k))"
      by (simp add: clear_word_def)
    from a1 t1 f1 c0 idem f2 d2 show ?thesis by simp
  qed
  from len each show ?thesis by blast
qed

lemma forward_search_in_doc:
  "forward_search doc x c = (td, Some t) \<Longrightarrow> t \<in> set doc"
proof (induction doc x c rule: forward_search.induct)
  case (1 doc x c)
  show ?case
  proof (cases "c < length doc")
    case True
    show ?thesis
    proof (cases "\<not> punct_or_space (doc ! c) \<and> matches (doc ! c) x")
      case hit: True
      with True "1.prems" have "t = doc ! c"
        by (subst (asm) forward_search.simps) simp
      with True show ?thesis by simp
    next
      case False
      with True "1.prems" have "forward_search doc x (c + 1) = (td, Some t)"
        by (subst (asm) forward_search.simps) auto
      from "1.IH" [OF True False this] show ?thesis .
    qed
  next
    case False
    with "1.prems" show ?thesis
      by (subst (asm) forward_search.simps) simp
  qed
qed

lemma fill_word_annotation_wf:
  "well_formed_word w \<Longrightarrow> well_formed_token t \<Longrightarrow> well_formed_word (fill_word_annotation w t)"
  by (simp add: well_formed_word_def well_formed_morph_def well_formed_token_def
      fill_word_annotation_def)

lemma annotate_fallback_wf:
  assumes "well_formed_tagger nlp" and "well_formed_word w"
  shows "well_formed_word (update_annotation w (annotate_fallback nlp x))"
proof (cases "nlp x")
  case Nil
  with assms(2) show ?thesis
    by (simp add: annotate_fallback_def update_annotation_def well_formed_word_def
        well_formed_morph_def)
next
  case (Cons t ts)
  from assms(1) have "list_all well_formed_token (nlp x)"
    by (simp add: well_formed_tagger_def)
  with Cons have "well_formed_token t" by simp
  with Cons assms(2) show ?thesis
    by (simp add: annotate_fallback_def update_annotation_def well_formed_word_def
        well_formed_morph_def well_formed_token_def)
qed

lemma align_word_wf:
  assumes "well_formed_tagger nlp" and "list_all well_formed_token doc" and "well_formed_word w"
  shows "well_formed_word (fst (align_word nlp doc w k))"
proof -
  define c where "c = skip_punct doc k"
  show ?thesis
  proof (cases "c < length doc \<and> matches (doc ! c) (get_text w)")
    case True
    with assms(2) have "well_formed_token (doc ! c)" by (simp add: list_all_length)
    with True assms(3) show ?thesis
      by (simp add: align_word_def Let_def c_def fill_word_annotation_wf)
  next
    case False
    obtain td r where fs: "forward_search doc (get_text w) c = (td, r)"
      by (cases "forward_search doc (get_text w) c")
    show ?thesis
    proof (cases r)
      case None
      with False fs assms(1,3) show ?thesis
        by (auto simp: align_word_def Let_def c_def annotate_fallback_wf)
    next
      case (Some t)
      with fs have "t \<in> set doc" by (auto dest: forward_search_in_doc)
      with assms(2) have "well_formed_token t" by (simp add: list_all_iff)
      with False fs Some assms(3) show ?thesis
        by (auto simp: align_word_def Let_def c_def fill_word_annotation_wf)
    qed
  qed
qed

lemma annotate_word_wf:
  assumes "well_formed_tagger nlp" and "list_all well_formed_token doc"
    and "list_all well_formed_word (store s)"
  shows "list_all well_formed_word (store (annotate_word nlp doc r s))"
proof (cases "r < length (store s)")
  case False
  then have "length (store s) \<le> r" by simp
  then have beyond: "\<And>w. (store s)[r := w] = store s" by (rule list_update_beyond)
  show ?thesis
    using assms(3) beyond
    by (simp add: annotate_word_def Let_def split: prod.splits)
next
  case True
  define w where "w = store s ! r"
  from True assms(3) have wf: "well_formed_word w" by (simp add: w_def list_all_length)
  have upd: "list_all well_formed_word ((store s)[r := w'])" if "well_formed_word w'" for w'
    using assms(3) that True by (auto simp: list_all_length nth_list_update)
  have 1: "well_formed_word (w\<lparr>w_pos := Some ''self-correction''\<rparr>)"
    using wf by (simp add: well_formed_word_def well_formed_morph_def)
  have 2: "well_formed_word (w\<lparr>w_pos := Some ''INTJ'', w_lemma := Some (get_text w),
        w_dep := Some '''', w_head_text := Some '''', w_morph := Some (PDict [])\<rparr>)"
    using wf by (simp add: well_formed_word_def well_formed_morph_def)
  have 3: "well_formed_word (fst (align_word nlp doc w (tok s)))"
    using assms(1,2) wf by (rule align_word_wf)
  from assms(3) upd [OF 1] upd [OF 2] upd [OF 3] show ?thesis
    by (auto simp: annotate_word_def Let_def w_def split: prod.splits)
qed

lemma annotate_words_wf:
  "well_formed_tagger nlp \<Longrightarrow> list_all well_formed_token doc \<Longrightarrow>
   list_all well_formed_word (store s) \<Longrightarrow>
   list_all well_formed_word (store (annotate_words nlp doc rs s))"
  by (induction rs arbitrary: s) (simp_all add: annotate_word_wf)

lemma annotate_sentence_wf:
  assumes "well_formed_tagger nlp" and "list_all well_formed_word (fst sn)"
  shows "list_all well_formed_word (fst (annotate_sentence nlp sl i sn))"
proof -
  from assms(1) have "list_all well_formed_token (nlp (context_string (fst sn) (context_window sl i)))"
    by (simp add: well_formed_tagger_def)
  from annotate_words_wf [OF assms(1) this, of "\<lparr>store = fst sn, tok = 0, annotated = snd sn\<rparr>"]
    assms(2)
  show ?thesis by (simp add: annotate_sentence_def Let_def)
qed

lemma fold_sentences_wf:
  "well_formed_tagger nlp \<Longrightarrow> list_all well_formed_word (fst sn) \<Longrightarrow>
   list_all well_formed_word (fst (fold (annotate_sentence nlp sl) is sn))"
  by (induction "is" arbitrary: sn) (simp_all add: annotate_sentence_wf)

lemma annotate_segment_wf:
  "well_formed_tagger nlp \<Longrightarrow> list_all well_formed_word ws \<Longrightarrow>
   list_all well_formed_word (fst (annotate_segment nlp (ws, n)))"
  by (simp add: annotate_segment_def Let_def fold_sentences_wf)

lemma annotate_segments_wf:
  "well_formed_tagger nlp \<Longrightarrow> \<forall>seg\<in>set segs. list_all well_formed_word (words seg) \<Longrightarrow>
   \<forall>seg\<in>set (fst (annotate_segments nlp segs n)). list_all well_formed_word (words seg)"
proof (induction segs arbitrary: n)
  case Nil
  then show ?case by simp
next
  case (Cons s segs)
  obtain wl n1 where a: "annotate_segment nlp (words s, n) = (wl, n1)"
    by (cases "annotate_segment nlp (words s, n)")
  obtain rest n2 where r: "annotate_segments nlp segs n1 = (rest, n2)"
    by (cases "annotate_segments nlp segs n1")
  from annotate_segment_wf [OF Cons.prems(1), of "words s" n] Cons.prems(2) a
  have "list_all well_formed_word wl" by simp
  moreover from Cons.IH [OF Cons.prems(1), of n1] Cons.prems(2) r
  have "\<forall>seg\<in>set rest. list_all well_formed_word (words seg)" by simp
  ultimately show ?case using a r by simp
qed

lemma tenses_pass_wf:
  assumes "post_process_compound_tenses data = Inr data'"
    and "\<forall>seg\<in>set (segments data). list_all well_formed_word (words seg)"
  shows "\<forall>seg\<in>set (segments data'). list_all well_formed_word (words seg)"
proof
  fix seg' assume "seg' \<in> set (segments data')"
  then obtain k where k: "k < length (segments data')" "seg' = segments data' ! k"
    by (auto simp: in_set_conv_nth)
  from assms(1) obtain segs where
    fs: "for_segments tenses_segment (segments data) = Inr segs"
    and d: "data' = data\<lparr>segments := segs\<rparr>"
    by (auto simp: post_process_compound_tenses_def split: sum.splits)
  from for_segments_nth [OF fs] d k
  have kk: "k < length (segments data)"
    and t: "tenses_segment (segments data ! k) = Inr seg'"
    by simp_all
  from kk assms(2) have wf: "list_all well_formed_word (words (segments data ! k))" by simp
  from tenses_segment_spec [OF t] wf show "list_all well_formed_word (words seg')"
    by (simp add: list_all_length classifier_result_wf)
qed

lemma pipeline_total:
  assumes "well_formed_tagger nlp"
    and "\<forall>seg\<in>set (segments data). \<forall>w\<in>set (words seg). w_text w \<noteq> None"
  shows "\<exists>data' n'. annotate_file nlp data n = Inr (data', n')"
proof -
  define c where "c = clear_annotations data"
  have wf0: "\<forall>seg\<in>set (segments c). list_all well_formed_word (words seg)"
    using assms(2)
    by (auto simp: c_def clear_annotations_def clear_word_def list_all_iff
        well_formed_word_def well_formed_morph_def)
  obtain segs n1 where a: "annotate_segments nlp (segments c) n = (segs, n1)"
    by (cases "annotate_segments nlp (segments c) n")
  from annotate_segments_wf [OF assms(1) wf0, of n] a
  have wf1: "\<forall>seg\<in>set segs. list_all well_formed_word (words seg)" by simp
  then have "\<forall>seg\<in>set (segments (c\<lparr>segments := segs\<rparr>)). \<forall>w\<in>set (words seg). well_formed_word w"
    by (simp add: list_all_iff)
  from tenses_pass_total [OF this] obtain data1 where
    t: "post_process_compound_tenses (c\<lparr>segments := segs\<rparr>) = Inr data1" by blast
  from tenses_pass_wf [OF t] wf1
  have "\<forall>seg\<in>set (segments data1). list_all well_formed_word (words seg)" by simp
  then have "\<forall>seg\<in>set (segments data1). \<forall>w\<in>set (words seg). well_formed_morph w"
    by (simp add: list_all_iff well_formed_word_def)
  from futures_pass_total [OF this] obtain data2 where
    f: "post_process_compound_futures data1 = Inr data2" by blast
  from a t f show ?thesis
    by (simp add: annotate_file_def annotate_cleared_def c_def)
qed

lemma sample_run: "annotate_file sample_nlp sample_data 0 = Inr (sample_result, 10)"
  by code_simp

lemma sample_nlp_well_formed: "well_formed_tagger sample_nlp"
  by (simp add: well_formed_tagger_def sample_nlp_def weather_doc_def haber_doc_def
      sample_token_def well_formed_token_def iterable_def)

lemma sample_data_texts:
  "\<forall>seg\<in>set (segments sample_data). \<forall>w\<in>set (words seg). w_text w \<noteq> None"
  by (simp add: sample_data_def plain_word_def)

lemma pipeline_words:
  assumes "annotate_file nlp data n = Inr (data', n')"
  shows "length (segments data') = length (segments data) \<and>
         (\<forall>k<length (segments data).
            length (words (segments data' ! k)) = length (words (segments data ! k)) \<and>
            map clear_word (words (segments data' ! k)) =
              map clear_word (words (segments data ! k)))"
proof -
  from pipeline_stages [OF assms]
  have len: "length (segments data') = length (segments data)"
    and each: "\<forall>k<length (segments data).
        map clear_word (words (segments data' ! k)) = map clear_word (words (segments data ! k))"
    by simp_all
  have "length (words (segments data' ! k)) = length (words (segments data ! k))"
    if "k < length (segments data)" for k
  proof -
    from each that
    have "length (map clear_word (words (segments data' ! k))) =
          length (map clear_word (words (segments data ! k)))"
      by simp
    then show ?thesis by simp
  qed
  with len each show ?thesis by blast
qed

lemma pipeline_outcome:
  assumes "annotate_file nlp data n = Inr (data', n')"
  shows "\<forall>seg\<in>set (segments data'). \<forall>w\<in>set (words seg). word_outcome w"
proof (intro ballI)
  fix seg w assume seg: "seg \<in> set (segments data')" and w: "w \<in> set (words seg)"
  from seg obtain k where k: "k < length (segments data')" "seg = segments data' ! k"
    by (auto simp: in_set_conv_nth)
  with pipeline_stages [OF assms] w show "word_outcome w" by auto
qed

text \<open>
  Claim C2. With a well-formed tagger and a text on every word \<^verbatim>\<open>annotate_file\<close>
  returns. Whenever it returns, the transcript has the same number of segments, every
  segment has the same number of words, and position by position the words differ from
  the words before at most in the five annotation fields: no word is added, removed,
  duplicated or reordered. The sentences of a segment, concatenated, are its words in
  their order.
\<close>

theorem words_keep_length_and_order:
  "(well_formed_tagger nlp \<and>
    (\<forall>seg\<in>set (segments data). \<forall>w\<in>set (words seg). w_text w \<noteq> None) \<longrightarrow>
      (\<exists>data' n'. annotate_file nlp data n = Inr (data', n'))) \<and>
   (\<forall>data' n'. annotate_file nlp data n = Inr (data', n') \<longrightarrow>
      length (segments data') = length (segments data) \<and>
      (\<forall>k<length (segments data).
         length (words (segments data' ! k)) = length (words (segments data ! k)) \<and>
         map clear_word (words (segments data' ! k)) =
           map clear_word (words (segments data ! k)))) \<and>
   (\<forall>st words_list. concat (split_into_sentences st words_list) = words_list)"
proof (intro conjI impI allI)
  assume "well_formed_tagger nlp \<and>
    (\<forall>seg\<in>set (segments data). \<forall>w\<in>set (words seg). w_text w \<noteq> None)"
  then show "\<exists>data' n'. annotate_file nlp data n = Inr (data', n')"
    using pipeline_total by blast
next
  fix data' n' assume run: "annotate_file nlp data n = Inr (data', n')"
  from pipeline_words [OF run]
  show "length (segments data') = length (segments data)" by simp
  fix k assume k: "k < length (segments data)"
  from pipeline_words [OF run] k
  show "length (words (segments data' ! k)) = length (words (segments data ! k))" by simp
  from pipeline_words [OF run] k
  show "map clear_word (words (segments data' ! k)) = map clear_word (words (segments data ! k))"
    by simp
next
  fix st words_list
  show "concat (split_into_sentences st words_list) = words_list"
    by (rule concat_split_into_sentences)
qed

theorem words_keep_length_and_order_witness:
  "well_formed_tagger sample_nlp \<and>
   list_all (\<lambda>seg. list_all (\<lambda>w. w_text w \<noteq> None) (words seg)) (segments sample_data) \<and>
   annotate_file sample_nlp sample_data 0 = Inr (sample_result, 10) \<and>
   length (segments sample_result) = 2 \<and>
   length (words (segments sample_result ! 0)) = 7 \<and>
   length (words (segments sample_result ! 1)) = 3 \<and>
   map clear_word (words (segments sample_result ! 0)) = words (segments sample_data ! 0) \<and>
   map clear_word (words (segments sample_result ! 1)) = words (segments sample_data ! 1)"
proof -
  note inst = words_keep_length_and_order [of sample_nlp sample_data 0]
  from inst sample_nlp_well_formed sample_data_texts
  have "\<exists>data' n'. annotate_file sample_nlp sample_data 0 = Inr (data', n')"
    by blast
  have texts: "list_all (\<lambda>seg. list_all (\<lambda>w. w_text w \<noteq> None) (words seg)) (segments sample_data)"
    using sample_data_texts by (simp add: list_all_iff)
  from inst sample_run
  have spec: "length (segments sample_result) = length (segments sample_data) \<and>
      (\<forall>k<length (segments sample_data).
         length (words (segments sample_result ! k)) = length (words (segments sample_data ! k)) \<and>
         map clear_word (words (segments sample_result ! k)) =
           map clear_word (words (segments sample_data ! k)))"
    by blast
  have c: "map clear_word (words (segments sample_data ! 0)) = words (segments sample_data ! 0)"
          "map clear_word (words (segments sample_data ! 1)) = words (segments sample_data ! 1)"
    by (simp_all add: sample_data_def plain_word_def clear_word_def)
  have l: "length (segments sample_data) = 2" "length (words (segments sample_data ! 0)) = 7"
          "length (words (segments sample_data ! 1)) = 3"
    by (simp_all add: sample_data_def)
  from spec c l sample_run sample_nlp_well_formed texts
  show ?thesis by simp
qed

text \<open>
  Claim C1, as amended. With a well-formed tagger and a text on every word
  \<^verbatim>\<open>annotate_file\<close> returns. Whenever it returns, every word of every segment has one of
  three outcomes: it is foreign-flagged and none of the five annotation fields is set;
  or it is not foreign-flagged, its text ends in \<open>-\<close>, its part of speech is the
  self-correction marker and the other four fields are not set; or it is neither and all
  of part of speech, lemma, dependency, head text and morphology are set.
\<close>

theorem every_word_has_an_outcome:
  "(well_formed_tagger nlp \<and>
    (\<forall>seg\<in>set (segments data). \<forall>w\<in>set (words seg). w_text w \<noteq> None) \<longrightarrow>
      (\<exists>data' n'. annotate_file nlp data n = Inr (data', n'))) \<and>
   (\<forall>data' n'. annotate_file nlp data n = Inr (data', n') \<longrightarrow>
      (\<forall>seg\<in>set (segments data'). \<forall>w\<in>set (words seg). word_outcome w))"
proof (intro conjI impI allI)
  assume "well_formed_tagger nlp \<and>
    (\<forall>seg\<in>set (segments data). \<forall>w\<in>set (words seg). w_text w \<noteq> None)"
  then show "\<exists>data' n'. annotate_file nlp data n = Inr (data', n')"
    using pipeline_total by blast
next
  fix data' n' assume "annotate_file nlp data n = Inr (data', n')"
  then show "\<forall>seg\<in>set (segments data'). \<forall>w\<in>set (words seg). word_outcome w"
    by (rule pipeline_outcome)
qed

theorem every_word_has_an_outcome_witness:
  "well_formed_tagger sample_nlp \<and>
   list_all (\<lambda>seg. list_all (\<lambda>w. w_text w \<noteq> None) (words seg)) (segments sample_data) \<and>
   annotate_file sample_nlp sample_data 0 = Inr (sample_result, 10) \<and>
   list_all (\<lambda>seg. list_all word_outcome (words seg)) (segments sample_result)"
proof -
  note inst = every_word_has_an_outcome [of sample_nlp sample_data 0]
  from inst sample_nlp_well_formed sample_data_texts
  have "\<exists>data' n'. annotate_file sample_nlp sample_data 0 = Inr (data', n')"
    by blast
  have texts: "list_all (\<lambda>seg. list_all (\<lambda>w. w_text w \<noteq> None) (words seg)) (segments sample_data)"
    using sample_data_texts by (simp add: list_all_iff)
  from inst sample_run
  have "\<forall>seg\<in>set (segments sample_result). \<forall>w\<in>set (words seg). word_outcome w"
    by blast
  then have "list_all (\<lambda>seg. list_all word_outcome (words seg)) (segments sample_result)"
    by (simp add: list_all_iff)
  with sample_run sample_nlp_well_formed texts show ?thesis by simp
qed

text \<open>A word that ends in \<open>-\<close> ends the pipeline with its part of speech alone.\<close>

theorem word_outcome_counterexample:
  "annotate_file sample_nlp sample_data 0 = Inr (sample_result, 10) \<and>
   w_foreign (words (segments sample_result ! 0) ! 3) = None \<and>
   w_pos (words (segments sample_result ! 0) ! 3) = Some ''self-correction'' \<and>
   w_lemma (words (segments sample_result ! 0) ! 3) = None \<and>
   w_dep (words (segments sample_result ! 0) ! 3) = None \<and>
   w_head_text (words (segments sample_result ! 0) ! 3) = None \<and>
   w_morph (words (segments sample_result ! 0) ! 3) = None"
  using sample_run by (simp add: sample_result_def plain_word_def)

subsection \<open>Missing and malformed morphology\<close>




















end
